theory Spec2Isabelle
  imports Complex_Main "HOL-Library.AList" "HOL-Library.Multiset"
begin

section \<open>Data model\<close>

text \<open>
  The types of \<^verbatim>\<open>src/types\<close>. A TypeScript \<^verbatim>\<open>string | null\<close> is a \<open>string option\<close>.
  A \<^verbatim>\<open>Date\<close> is the reading of the clock as a natural number; an operation takes one
  reading (\<open>now\<close>, or the one that comes with a generated id) for all its
  \<^verbatim>\<open>new Date()\<close>. Round scores are values that the code itself tests for sign and
  integrality, so they are reals (the finite values of a JavaScript number); team counts,
  stage numbers and positions are counters and are naturals. Fields are written with the
  name of their record where two records share a field name, and a local variable of the
  source whose name is a field or a constant gets a nearby name (\<open>homeR\<close> for
  \<^verbatim>\<open>homeRounds\<close>, \<open>roundNumber\<close> for \<^verbatim>\<open>round\<close>).
\<close>

record CreateTournamentOptions =
  name :: string
  teamCount :: nat
  guildId :: string

record RegisterTeamOptions =
  tournamentId :: string
  name :: string
  captainId :: string
  captainName :: string

datatype match_status = Pending | Ready | InProgress | Completed

datatype tournament_status = Draft | Registration | Active | TournamentCompleted

datatype tournament_format = SingleElimination

record Team =
  id :: string
  name :: string
  tournamentId :: string
  captainId :: string
  captainName :: string
  members :: "string list"
  registeredAt :: nat

record Match =
  id :: string
  tournamentId :: string
  stage :: nat
  stagePosition :: nat
  homeTeamId :: "string option"
  awayTeamId :: "string option"
  winnerId :: "string option"
  homeRounds :: "real option"
  awayRounds :: "real option"
  status :: match_status
  nextMatchId :: "string option"
  createdAt :: nat
  updatedAt :: nat
  completedAt :: "nat option"

record Tournament =
  id :: string
  name :: string
  teamCount :: nat
  format :: tournament_format
  status :: tournament_status
  guildId :: string
  currentStage :: nat
  totalStages :: nat
  createdAt :: nat
  updatedAt :: nat
  completedAt :: "nat option"
  teams :: "Team list"
  matches :: "Match list"

text \<open>
  JavaScript truthiness of a \<^verbatim>\<open>string | null\<close>: \<^verbatim>\<open>null\<close> and the empty string are falsy.
\<close>

fun truthy :: "string option \<Rightarrow> bool" where
  "truthy None = False"
| "truthy (Some s) = (s \<noteq> [])"

section \<open>Scoring rule (matchService.ts)\<close>

definition Number_isInteger :: "real \<Rightarrow> bool" where
  "Number_isInteger x = (of_int \<lfloor>x\<rfloor> = x)"

definition isValidValorantScore :: "real \<Rightarrow> real \<Rightarrow> bool" where
  "isValidValorantScore rounds1 rounds2 =
     (if rounds1 < 0 \<or> rounds2 < 0 \<or> \<not> Number_isInteger rounds1 \<or> \<not> Number_isInteger rounds2
      then False
      else if rounds1 = rounds2 then False
      else let higher = max rounds1 rounds2; lower = min rounds1 rounds2 in
        if higher = 13 \<and> lower \<le> 11 then True
        else if lower \<ge> 12 \<and> higher - lower \<ge> 2 then True
        else False)"

datatype side = Home | Away

definition getWinner :: "real \<Rightarrow> real \<Rightarrow> side option" where
  "getWinner homeR awayR =
     (if \<not> isValidValorantScore homeR awayR then None
      else Some (if homeR > awayR then Home else Away))"

section \<open>Errors\<close>

text \<open>
  Every \<^verbatim>\<open>throw new Error(...)\<close> of the two services is a constructor, named after the
  taxonomy of the specification; \<open>TypeError\<close> is the exception JavaScript raises when a
  property of \<^verbatim>\<open>undefined\<close> is read.
\<close>

datatype score_problem = Draw | OvertimeRequired | NotFinished | OvertimeGap | OtherInvalid

datatype error =
    InvalidScore score_problem
  | TournamentNotFound
  | TournamentNotActive
  | MatchNotFound
  | MatchAlreadyCompleted
  | TeamsNotAssigned
  | TypeError
  | DuplicateTournament
  | NotDraft
  | NotRegistration
  | CapacityReached
  | TeamNameTaken
  | IncompleteRoster nat

section \<open>Tournament progression (matchService.ts)\<close>

record TournamentStatus =
  isCompleted :: bool
  currentRound :: nat
  totalRounds :: nat
  champion :: "string option"
  runnerUp :: "string option"

text \<open>
  \<^verbatim>\<open>tournament.teams.find(t => t.id === x)\<close> with \<^verbatim>\<open>x\<close> a \<^verbatim>\<open>string | null\<close>: no team id is
  strictly equal to \<^verbatim>\<open>null\<close>.
\<close>

definition findTeam :: "Tournament \<Rightarrow> string option \<Rightarrow> Team option" where
  "findTeam tournament x = find (\<lambda>t. Some (Team.id t) = x) (teams tournament)"

text \<open>
  The loop over the sorted stage numbers. Its local variables are \<open>currentStage\<close> (the
  last argument), \<open>isCompleted\<close>, \<open>champion\<close> and \<open>runnerUp\<close>; the last three are assigned
  only in the branch of the final, which also mutates the tournament and leaves the loop.
  The result is the tournament and the four locals when the loop is left.
  \<^verbatim>\<open>stageMatches[0]\<close> is \<^verbatim>\<open>undefined\<close> on an empty array and reading its \<^verbatim>\<open>winnerId\<close>
  throws.
\<close>

fun stageLoop ::
  "nat \<Rightarrow> Tournament \<Rightarrow> nat list \<Rightarrow> nat
     \<Rightarrow> error + (Tournament \<times> nat \<times> bool \<times> string option \<times> string option)" where
  "stageLoop now tournament [] cur = Inr (tournament, cur, False, None, None)"
| "stageLoop now tournament (s # rest) cur =
     (let stageMatches = filter (\<lambda>m. Match.stage m = s) (matches tournament);
          completedMatches = filter (\<lambda>m. Match.status m = Completed) stageMatches
      in if length completedMatches < length stageMatches
         then Inr (tournament, cur, False, None, None)
         else if s = totalStages tournament then
           (case stageMatches of
              [] \<Rightarrow> Inl TypeError
            | finalMatch # _ \<Rightarrow>
                Inr (tournament\<lparr>Tournament.status := TournamentCompleted,
                                 Tournament.completedAt := Some now,
                                 Tournament.updatedAt := now\<rparr>,
                     s + 1, True,
                     (if truthy (winnerId finalMatch)
                      then map_option Team.name (findTeam tournament (winnerId finalMatch))
                      else None),
                     (if truthy (winnerId finalMatch)
                      then map_option Team.name
                             (findTeam tournament
                                (if homeTeamId finalMatch = winnerId finalMatch
                                 then awayTeamId finalMatch else homeTeamId finalMatch))
                      else None)))
         else stageLoop now tournament rest (s + 1))"

definition checkTournamentProgress ::
  "nat \<Rightarrow> Tournament \<Rightarrow> error + (Tournament \<times> TournamentStatus)" where
  "checkTournamentProgress now tournament =
     (let stages = sort (remdups (map Match.stage (matches tournament)))
      in case stageLoop now tournament stages 1 of
           Inl e \<Rightarrow> Inl e
         | Inr (t1, cur, completed, champ, runner) \<Rightarrow>
             (let t2 = t1\<lparr>currentStage := min cur (totalStages tournament)\<rparr>
              in Inr (t2, \<lparr>isCompleted = completed,
                           currentRound = currentStage t2,
                           totalRounds = totalStages tournament,
                           champion = champ,
                           runnerUp = runner\<rparr>)))"

section \<open>Reporting a result (matchService.ts)\<close>

record MatchResult =
  match :: Match
  winner :: string
  nextMatches :: "Match list"
  tournamentCompleted :: bool

text \<open>
  The registry \<^verbatim>\<open>tournaments\<close> is a JavaScript \<^verbatim>\<open>Map\<close>: an association list in insertion
  order, read with \<open>map_of\<close> and written with \<open>AList.update\<close> (which, like \<^verbatim>\<open>Map.set\<close>,
  replaces the value of a key that is present and appends a new key at the end).
\<close>

type_synonym registry = "(string \<times> Tournament) list"

text \<open>
  \<^verbatim>\<open>Array.find\<close> returns a reference to the first element that satisfies the predicate;
  the model keeps the index of that element, so that later writes through the reference
  are writes at that index.
\<close>

fun findIndex :: "('a \<Rightarrow> bool) \<Rightarrow> 'a list \<Rightarrow> nat option" where
  "findIndex P [] = None"
| "findIndex P (x # xs) = (if P x then Some 0 else map_option Suc (findIndex P xs))"

text \<open>The chain that chooses the message of an invalid score.\<close>

definition scoreProblem :: "real \<Rightarrow> real \<Rightarrow> score_problem" where
  "scoreProblem homeR awayR =
     (let higher = max homeR awayR; lower = min homeR awayR
      in if homeR = awayR then Draw
         else if higher = 13 \<and> lower = 12 then OvertimeRequired
         else if higher < 13 then NotFinished
         else if lower \<ge> 12 \<and> higher - lower = 1 then OvertimeGap
         else OtherInvalid)"

text \<open>The block that records the result in the match (lines 113 to 124).\<close>

definition completeMatch :: "nat \<Rightarrow> real \<Rightarrow> real \<Rightarrow> Match \<Rightarrow> Match" where
  "completeMatch now homeR awayR m =
     (let winnerSide = getWinner homeR awayR;
          w = (if winnerSide = Some Home then homeTeamId m else awayTeamId m)
      in m\<lparr>homeRounds := Some homeR, awayRounds := Some awayR, winnerId := w,
            Match.status := Completed, Match.completedAt := Some now,
            Match.updatedAt := now\<rparr>)"

text \<open>The writes to the next match (lines 132 to 143).\<close>

definition fillSlot :: "nat \<Rightarrow> string option \<Rightarrow> Match \<Rightarrow> Match" where
  "fillSlot now w nextMatch =
     (let n1 = (if \<not> truthy (homeTeamId nextMatch) then nextMatch\<lparr>homeTeamId := w\<rparr>
                else if \<not> truthy (awayTeamId nextMatch) then nextMatch\<lparr>awayTeamId := w\<rparr>
                else nextMatch);
          n2 = (if truthy (homeTeamId n1) \<and> truthy (awayTeamId n1) \<and> Match.status n1 = Pending
                then n1\<lparr>Match.status := Ready\<rparr> else n1)
      in n2\<lparr>Match.updatedAt := now\<rparr>)"

text \<open>
  Propagation of the winner of the match at index \<open>i\<close> (lines 127 to 146): the new list
  of matches and the array \<^verbatim>\<open>nextMatches\<close>.
\<close>

definition propagate :: "nat \<Rightarrow> nat \<Rightarrow> Match list \<Rightarrow> Match list \<times> Match list" where
  "propagate now i ms =
     (if truthy (nextMatchId (ms ! i)) then
        (case findIndex (\<lambda>m. Some (Match.id m) = nextMatchId (ms ! i)) ms of
           None \<Rightarrow> (ms, [])
         | Some j \<Rightarrow>
             (let ms' = ms[j := fillSlot now (winnerId (ms ! i)) (ms ! j)]
              in (ms', [ms' ! j])))
      else (ms, []))"

text \<open>
  The whole operation. Every throw before line 113 leaves the registry as it was. The
  tournament object is mutated in place, so its new value is written under the key it
  was found at; \<^verbatim>\<open>updateTournament\<close> then stamps it and sets it under its own id.
  \<^verbatim>\<open>winnerTeam.name\<close> is read when the result is built, after all writes.
\<close>

definition reportMatchResult ::
  "nat \<Rightarrow> registry \<Rightarrow> string \<Rightarrow> string \<Rightarrow> real \<Rightarrow> real \<Rightarrow> registry \<times> (error + MatchResult)" where
  "reportMatchResult now reg tid mid homeR awayR =
     (if \<not> isValidValorantScore homeR awayR
      then (reg, Inl (InvalidScore (scoreProblem homeR awayR)))
      else case map_of reg tid of
        None \<Rightarrow> (reg, Inl TournamentNotFound)
      | Some tournament \<Rightarrow>
          if Tournament.status tournament \<noteq> Active then (reg, Inl TournamentNotActive)
          else case findIndex (\<lambda>m. Match.id m = mid) (matches tournament) of
            None \<Rightarrow> (reg, Inl MatchNotFound)
          | Some i \<Rightarrow>
              if Match.status (matches tournament ! i) = Completed
              then (reg, Inl MatchAlreadyCompleted)
              else if \<not> truthy (homeTeamId (matches tournament ! i))
                      \<or> \<not> truthy (awayTeamId (matches tournament ! i))
              then (reg, Inl TeamsNotAssigned)
              else
                (let ms1 = (matches tournament)[i := completeMatch now homeR awayR (matches tournament ! i)];
                     winnerTeam = findTeam tournament (winnerId (ms1 ! i));
                     (ms2, nexts) = propagate now i ms1;
                     t1 = tournament\<lparr>matches := ms2\<rparr>
                 in case checkTournamentProgress now t1 of
                      Inl e \<Rightarrow> (AList.update tid t1 reg, Inl e)
                    | Inr (t2, st) \<Rightarrow>
                        (let t3 = t2\<lparr>Tournament.updatedAt := now\<rparr>;
                             reg' = AList.update (Tournament.id t3) t3 (AList.update tid t3 reg)
                         in case winnerTeam of
                              None \<Rightarrow> (reg', Inl TypeError)
                            | Some wt \<Rightarrow>
                                (reg', Inr \<lparr>match = ms2 ! i, winner = Team.name wt,
                                            nextMatches = nexts,
                                            tournamentCompleted = isCompleted st\<rparr>))))"

section \<open>Bracket generation (tournamentService.ts)\<close>

text \<open>
  \<^verbatim>\<open>Number.prototype.toString\<close> on a non-negative integer: its decimal digits.
\<close>

definition digit :: "nat \<Rightarrow> char" where
  "digit d = ''0123456789'' ! d"

fun toString :: "nat \<Rightarrow> string" where
  "toString n = (if n < 10 then [digit n] else toString (n div 10) @ [digit (n mod 10)])"

text \<open>
  \<^verbatim>\<open>Math.log2\<close> on a power of two, where its value is an exact integer. Other team
  counts give a fractional number of rounds and are outside the model; the command layer
  offers 4, 8 and 16.
\<close>

fun log2 :: "nat \<Rightarrow> nat" where
  "log2 n = (if n < 2 then 0 else Suc (log2 (n div 2)))"

declare toString.simps [simp del] log2.simps [simp del]

text \<open>
  \<^verbatim>\<open>Date.now()\<close> and \<^verbatim>\<open>Math.random().toString(36).substring(2, 8)\<close> are inputs from the
  environment: a pair of the clock reading and the random suffix. A function from the
  number of the call to such a pair supplies them to a loop.
\<close>

type_synonym entropy = "nat \<times> string"

definition generateId :: "nat \<Rightarrow> string" where
  "generateId now = ''t_'' @ toString now"

definition generateTeamId :: "entropy \<Rightarrow> string" where
  "generateTeamId e = ''team_'' @ toString (fst e) @ ''_'' @ snd e"

definition generateMatchId :: "entropy \<Rightarrow> string" where
  "generateMatchId e = ''match_'' @ toString (fst e) @ ''_'' @ snd e"

text \<open>The template string \<^verbatim>\<open>`${round}-${matchNumber}`\<close>.\<close>

definition matchKey :: "nat \<Rightarrow> nat \<Rightarrow> string" where
  "matchKey roundNumber matchNumber = toString roundNumber @ ''-'' @ toString matchNumber"

text \<open>Reading \<^verbatim>\<open>xs[i]\<close>: \<^verbatim>\<open>undefined\<close> out of range.\<close>

definition elementAt :: "'a list \<Rightarrow> nat \<Rightarrow> 'a option" where
  "elementAt xs i = (if i < length xs then Some (xs ! i) else None)"

text \<open>The object literal of lines 226 to 241.\<close>

definition newMatch :: "entropy \<Rightarrow> string \<Rightarrow> nat \<Rightarrow> nat \<Rightarrow> Match" where
  "newMatch e tid roundNumber matchNumber =
     \<lparr>Match.id = generateMatchId e, Match.tournamentId = tid, stage = roundNumber,
      stagePosition = matchNumber, homeTeamId = None, awayTeamId = None, winnerId = None,
      homeRounds = None, awayRounds = None, Match.status = Pending, nextMatchId = None,
      Match.createdAt = fst e, Match.updatedAt = fst e, Match.completedAt = None\<rparr>"

text \<open>Lines 244 to 250; reading \<^verbatim>\<open>.id\<close> of a missing team throws.\<close>

definition assignTeams :: "Team list \<Rightarrow> nat \<Rightarrow> Match \<Rightarrow> error + Match" where
  "assignTeams shuffledTeams matchNumber m =
     (let homeIndex = (matchNumber - 1) * 2; awayIndex = homeIndex + 1
      in case elementAt shuffledTeams homeIndex of
           None \<Rightarrow> Inl TypeError
         | Some h \<Rightarrow>
             (case elementAt shuffledTeams awayIndex of
                None \<Rightarrow> Inl TypeError
              | Some a \<Rightarrow>
                  Inr (m\<lparr>homeTeamId := Some (Team.id h), awayTeamId := Some (Team.id a),
                         Match.status := Ready\<rparr>)))"

text \<open>
  Lines 253 to 257: the key of the next match is stored in \<^verbatim>\<open>nextMatchId\<close> for the time
  being; \<^verbatim>\<open>Math.ceil(matchNumber / 2)\<close> is \<open>(matchNumber + 1) div 2\<close>.
\<close>

definition linkNext :: "nat \<Rightarrow> nat \<Rightarrow> nat \<Rightarrow> Match \<Rightarrow> Match" where
  "linkNext nRounds roundNumber matchNumber m =
     (if roundNumber < nRounds
      then (let nextRoundMatchNumber = (matchNumber + 1) div 2
            in m\<lparr>nextMatchId := Some (matchKey (roundNumber + 1) nextRoundMatchNumber)\<rparr>)
      else m)"

text \<open>
  The body of the inner loop. The loop state is the array \<^verbatim>\<open>matches\<close> and the map
  \<^verbatim>\<open>matchIdMap\<close>; the call of \<^verbatim>\<open>generateMatchId\<close> in the iteration that pushes the match
  number \<open>k\<close> (counting from 0) takes the pair \<open>gen k\<close>.
\<close>

type_synonym bracket_state = "Match list \<times> (string \<rightharpoonup> string)"

definition bracketStep ::
  "(nat \<Rightarrow> entropy) \<Rightarrow> Team list \<Rightarrow> Team list \<Rightarrow> nat \<Rightarrow> nat \<Rightarrow> bracket_state \<Rightarrow> nat
     \<Rightarrow> error + bracket_state" where
  "bracketStep gen teamList shuffledTeams nRounds roundNumber st matchNumber =
     (case elementAt teamList 0 of
        None \<Rightarrow> Inl TypeError
      | Some t0 \<Rightarrow>
          (let m0 = newMatch (gen (length (fst st))) (Team.tournamentId t0) roundNumber matchNumber
           in case (if roundNumber = 1 then assignTeams shuffledTeams matchNumber m0 else Inr m0) of
                Inl e \<Rightarrow> Inl e
              | Inr m1 \<Rightarrow>
                  (let m2 = linkNext nRounds roundNumber matchNumber m1
                   in Inr (fst st @ [m2],
                           (snd st)(matchKey roundNumber matchNumber \<mapsto> Match.id m2)))))"

text \<open>A \<^verbatim>\<open>for\<close> loop whose body may throw.\<close>

fun forEachM :: "('s \<Rightarrow> 'a \<Rightarrow> error + 's) \<Rightarrow> 'a list \<Rightarrow> 's \<Rightarrow> error + 's" where
  "forEachM f [] s = Inr s"
| "forEachM f (x # xs) s = (case f s x of Inl e \<Rightarrow> Inl e | Inr s' \<Rightarrow> forEachM f xs s')"

text \<open>The second pass (lines 265 to 271); a key is a non-empty string, so truthy.\<close>

definition resolveLink :: "(string \<rightharpoonup> string) \<Rightarrow> Match \<Rightarrow> Match" where
  "resolveLink matchIdMap m =
     (if truthy (nextMatchId m) \<and> matchIdMap (the (nextMatchId m)) \<noteq> None
      then m\<lparr>nextMatchId := matchIdMap (the (nextMatchId m))\<rparr>
      else if truthy (nextMatchId m) then m\<lparr>nextMatchId := None\<rparr>
      else m)"

text \<open>
  \<^verbatim>\<open>generateBracket\<close>; \<open>nTeams\<close> and \<open>nRounds\<close> are the locals \<^verbatim>\<open>teamCount\<close> and
  \<^verbatim>\<open>totalRounds\<close>, \<open>roundNumber\<close> is \<^verbatim>\<open>round\<close>. The outcome of \<^verbatim>\<open>[...teams].sort(() => Math.random() - 0.5)\<close> is
  the argument \<open>shuffledTeams\<close>: sorting permutes, so callers supply a permutation of
  the teams.
\<close>

definition generateBracket ::
  "(nat \<Rightarrow> entropy) \<Rightarrow> Team list \<Rightarrow> Team list \<Rightarrow> error + Match list" where
  "generateBracket gen shuffledTeams teamList =
     (let nTeams = length teamList;
          nRounds = log2 nTeams;
          matchesPerRound = map (\<lambda>roundNumber. 2 ^ (nRounds - roundNumber)) [1..<Suc nRounds]
      in case forEachM
                (\<lambda>st roundNumber.
                   forEachM (bracketStep gen teamList shuffledTeams nRounds roundNumber)
                     [1..<Suc (matchesPerRound ! (roundNumber - 1))] st)
                [1..<Suc nRounds] ([], Map.empty) of
           Inl e \<Rightarrow> Inl e
         | Inr st \<Rightarrow> Inr (map (resolveLink (snd st)) (fst st)))"

section \<open>The registry operations (tournamentService.ts)\<close>

text \<open>
  The writes to durable storage (\<^verbatim>\<open>saveGuildData\<close>) do not touch the registry and are
  left out. Each operation returns the new registry and either the error thrown or the
  value returned.
\<close>

definition findByNameAndGuild :: "registry \<Rightarrow> string \<Rightarrow> string \<Rightarrow> Tournament option" where
  "findByNameAndGuild reg n g =
     find (\<lambda>t. Tournament.name t = n \<and> Tournament.guildId t = g) (map snd reg)"

definition create ::
  "nat \<Rightarrow> registry \<Rightarrow> CreateTournamentOptions \<Rightarrow> registry \<times> (error + Tournament)" where
  "create now reg options =
     (case findByNameAndGuild reg (CreateTournamentOptions.name options)
             (CreateTournamentOptions.guildId options) of
        Some _ \<Rightarrow> (reg, Inl DuplicateTournament)
      | None \<Rightarrow>
          (let stages = log2 (CreateTournamentOptions.teamCount options);
               tournament =
                 \<lparr>Tournament.id = generateId now,
                  Tournament.name = CreateTournamentOptions.name options,
                  Tournament.teamCount = CreateTournamentOptions.teamCount options,
                  format = SingleElimination,
                  Tournament.status = Draft,
                  Tournament.guildId = CreateTournamentOptions.guildId options,
                  currentStage = 1,
                  totalStages = stages,
                  Tournament.createdAt = now,
                  Tournament.updatedAt = now,
                  Tournament.completedAt = None,
                  teams = [],
                  matches = []\<rparr>
           in (AList.update (Tournament.id tournament) tournament reg, Inr tournament)))"

definition startRegistration ::
  "nat \<Rightarrow> registry \<Rightarrow> string \<Rightarrow> registry \<times> (error + Tournament)" where
  "startRegistration now reg tid =
     (case map_of reg tid of
        None \<Rightarrow> (reg, Inl TournamentNotFound)
      | Some tournament \<Rightarrow>
          if Tournament.status tournament \<noteq> Draft then (reg, Inl NotDraft)
          else (let t' = tournament\<lparr>Tournament.status := Registration,
                                     Tournament.updatedAt := now\<rparr>
                in (AList.update tid t' reg, Inr t')))"

definition getTeams :: "registry \<Rightarrow> string \<Rightarrow> Team list" where
  "getTeams reg tid = (case map_of reg tid of None \<Rightarrow> [] | Some tournament \<Rightarrow> teams tournament)"

definition isTeamNameTaken :: "registry \<Rightarrow> string \<Rightarrow> string \<Rightarrow> bool" where
  "isTeamNameTaken reg tid teamName = list_ex (\<lambda>team. Team.name team = teamName) (getTeams reg tid)"

definition canRegisterTeam :: "registry \<Rightarrow> string \<Rightarrow> bool" where
  "canRegisterTeam reg tid =
     (case map_of reg tid of
        None \<Rightarrow> False
      | Some tournament \<Rightarrow> length (teams tournament) < Tournament.teamCount tournament)"

definition registerTeam ::
  "entropy \<Rightarrow> registry \<Rightarrow> RegisterTeamOptions \<Rightarrow> registry \<times> (error + Team)" where
  "registerTeam e reg options =
     (case map_of reg (RegisterTeamOptions.tournamentId options) of
        None \<Rightarrow> (reg, Inl TournamentNotFound)
      | Some tournament \<Rightarrow>
          if Tournament.status tournament \<noteq> Registration then (reg, Inl NotRegistration)
          else if \<not> canRegisterTeam reg (RegisterTeamOptions.tournamentId options)
          then (reg, Inl CapacityReached)
          else if isTeamNameTaken reg (RegisterTeamOptions.tournamentId options)
                    (RegisterTeamOptions.name options)
          then (reg, Inl TeamNameTaken)
          else (let team = \<lparr>Team.id = generateTeamId e,
                             Team.name = RegisterTeamOptions.name options,
                             Team.tournamentId = RegisterTeamOptions.tournamentId options,
                             Team.captainId = RegisterTeamOptions.captainId options,
                             Team.captainName = RegisterTeamOptions.captainName options,
                             members = [],
                             registeredAt = fst e\<rparr>;
                    t' = tournament\<lparr>teams := teams tournament @ [team],
                                     Tournament.updatedAt := fst e\<rparr>
                in (AList.update (RegisterTeamOptions.tournamentId options) t' reg, Inr team)))"

definition startTournament ::
  "nat \<Rightarrow> (nat \<Rightarrow> entropy) \<Rightarrow> Team list \<Rightarrow> registry \<Rightarrow> string
     \<Rightarrow> registry \<times> (error + Tournament)" where
  "startTournament now gen shuffledTeams reg tid =
     (case map_of reg tid of
        None \<Rightarrow> (reg, Inl TournamentNotFound)
      | Some tournament \<Rightarrow>
          if Tournament.status tournament \<noteq> Registration then (reg, Inl NotRegistration)
          else if length (teams tournament) \<noteq> Tournament.teamCount tournament
          then (reg, Inl (IncompleteRoster
                            (Tournament.teamCount tournament - length (teams tournament))))
          else case generateBracket gen shuffledTeams (teams tournament) of
                 Inl e \<Rightarrow> (reg, Inl e)
               | Inr ms \<Rightarrow>
                   (let t' = tournament\<lparr>matches := ms, Tournament.status := Active,
                                        Tournament.updatedAt := now\<rparr>
                    in (AList.update tid t' reg, Inr t')))"

text \<open>
  The registries that the listed operations can produce from the empty one, whatever
  their arguments, the clock readings and the random values are. A tournament is created
  for a number of teams that is a power of two, and the shuffle yields a permutation of
  the registered teams. \<^verbatim>\<open>checkTournamentProgress\<close> mutates the tournament object it is
  given, which is the one held by the registry.
\<close>

inductive reachable :: "registry \<Rightarrow> bool" where
  initial: "reachable []"
| by_create:
    "reachable reg \<Longrightarrow> CreateTournamentOptions.teamCount options = 2 ^ k \<Longrightarrow>
     create now reg options = (reg', res) \<Longrightarrow> reachable reg'"
| by_startRegistration:
    "reachable reg \<Longrightarrow> startRegistration now reg tid = (reg', res) \<Longrightarrow> reachable reg'"
| by_registerTeam:
    "reachable reg \<Longrightarrow> registerTeam e reg ropts = (reg', tres) \<Longrightarrow> reachable reg'"
| by_startTournament:
    "reachable reg \<Longrightarrow> map_of reg tid = Some tournament \<Longrightarrow>
     mset shuffledTeams = mset (teams tournament) \<Longrightarrow>
     startTournament now gen shuffledTeams reg tid = (reg', res) \<Longrightarrow> reachable reg'"
| by_reportMatchResult:
    "reachable reg \<Longrightarrow> reportMatchResult now reg tid mid homeR awayR = (reg', mres) \<Longrightarrow>
     reachable reg'"
| by_checkTournamentProgress:
    "reachable reg \<Longrightarrow> map_of reg tid = Some tournament \<Longrightarrow>
     checkTournamentProgress now tournament = Inr (t', st) \<Longrightarrow>
     reachable (AList.update tid t' reg)"

section \<open>Example states\<close>

text \<open>
  The four-team tournament ``Cup'' of the specification's end-to-end scenario, right
  after the bracket was generated (\<open>exampleCup\<close>), after both matches of stage 1 were
  reported as 13-7 and 12-14 (\<open>exampleFinal\<close>), and with the final played as well but
  the progress not yet assessed (\<open>exampleDoneT\<close>).
\<close>

definition exampleTeam :: "string \<Rightarrow> string \<Rightarrow> Team" where
  "exampleTeam i n = \<lparr>Team.id = i, Team.name = n, Team.tournamentId = ''t_1'',
     captainId = ''u'', captainName = ''cap'', members = [], registeredAt = 1\<rparr>"

definition exampleMatch ::
  "string \<Rightarrow> nat \<Rightarrow> nat \<Rightarrow> string option \<Rightarrow> string option \<Rightarrow> match_status
     \<Rightarrow> string option \<Rightarrow> Match" where
  "exampleMatch i s p h a st nx = \<lparr>Match.id = i, Match.tournamentId = ''t_1'', stage = s,
     stagePosition = p, homeTeamId = h, awayTeamId = a, winnerId = None, homeRounds = None,
     awayRounds = None, Match.status = st, nextMatchId = nx, Match.createdAt = 2,
     Match.updatedAt = 2, Match.completedAt = None\<rparr>"

definition exampleCupT :: Tournament where
  "exampleCupT = \<lparr>Tournament.id = ''t_1'', Tournament.name = ''Cup'', teamCount = 4,
     format = SingleElimination, Tournament.status = Active, guildId = ''g'', currentStage = 1, totalStages = 2,
     Tournament.createdAt = 0, Tournament.updatedAt = 2, Tournament.completedAt = None,
     teams = [exampleTeam ''team_a'' ''A'', exampleTeam ''team_b'' ''B'',
              exampleTeam ''team_c'' ''C'', exampleTeam ''team_d'' ''D''],
     matches = [exampleMatch ''m1'' 1 1 (Some ''team_a'') (Some ''team_b'') Ready (Some ''m3''),
                exampleMatch ''m2'' 1 2 (Some ''team_c'') (Some ''team_d'') Ready (Some ''m3''),
                exampleMatch ''m3'' 2 1 None None Pending None]\<rparr>"

definition exampleCup :: registry where
  "exampleCup = [(''t_1'', exampleCupT)]"

definition exampleFinalT :: Tournament where
  "exampleFinalT = exampleCupT\<lparr>currentStage := 2, Tournament.updatedAt := 4,
     matches :=
       [(exampleMatch ''m1'' 1 1 (Some ''team_a'') (Some ''team_b'') Completed (Some ''m3''))
          \<lparr>winnerId := Some ''team_a'', homeRounds := Some 13, awayRounds := Some 7,
           Match.completedAt := Some 3\<rparr>,
        (exampleMatch ''m2'' 1 2 (Some ''team_c'') (Some ''team_d'') Completed (Some ''m3''))
          \<lparr>winnerId := Some ''team_d'', homeRounds := Some 12, awayRounds := Some 14,
           Match.completedAt := Some 4\<rparr>,
        exampleMatch ''m3'' 2 1 (Some ''team_a'') (Some ''team_d'') Ready None]\<rparr>"

definition exampleFinal :: registry where
  "exampleFinal = [(''t_1'', exampleFinalT)]"

definition exampleDoneT :: Tournament where
  "exampleDoneT = exampleFinalT\<lparr>matches :=
       (matches exampleFinalT)[2 :=
          (exampleMatch ''m3'' 2 1 (Some ''team_a'') (Some ''team_d'') Completed None)
            \<lparr>winnerId := Some ''team_a'', homeRounds := Some 13, awayRounds := Some 9,
             Match.completedAt := Some 5\<rparr>]\<rparr>"

section \<open>Auxiliary notions for the proofs\<close>

text \<open>
  The pairs (round, match number) in the order in which the two nested loops of
  \<^verbatim>\<open>generateBracket\<close> visit them, and the match that iteration number \<open>k\<close> pushes.
\<close>

definition bracketSlots :: "nat \<Rightarrow> (nat \<times> nat) list" where
  "bracketSlots T = concat (map (\<lambda>r. map (Pair r) [1..<Suc (2 ^ (T - r))]) [1..<Suc T])"

definition slotMatch ::
  "(nat \<Rightarrow> entropy) \<Rightarrow> string \<Rightarrow> Team list \<Rightarrow> nat \<Rightarrow> nat \<Rightarrow> nat \<times> nat \<Rightarrow> Match" where
  "slotMatch gen tid shuffledTeams nRounds k rp =
     linkNext nRounds (fst rp) (snd rp)
       (if fst rp = 1
        then (newMatch (gen k) tid (fst rp) (snd rp))
               \<lparr>homeTeamId := Some (Team.id (shuffledTeams ! ((snd rp - 1) * 2))),
                awayTeamId := Some (Team.id (shuffledTeams ! ((snd rp - 1) * 2 + 1))),
                Match.status := Ready\<rparr>
        else newMatch (gen k) tid (fst rp) (snd rp))"

text \<open>A supply of clock readings and random suffixes for the examples.\<close>

definition exampleGen :: "nat \<Rightarrow> entropy" where
  "exampleGen k = (100 + k, ''ab'')"

text \<open>
  The invariant of completed matches in the form that the operations preserve: the team
  slots of a completed match are truthy, which is what \<^verbatim>\<open>reportMatchResult\<close> tests.
\<close>

definition completedOk :: "Match \<Rightarrow> bool" where
  "completedOk m \<longleftrightarrow>
     (Match.status m = Completed \<longrightarrow>
        truthy (homeTeamId m) \<and> truthy (awayTeamId m)
        \<and> homeRounds m \<noteq> None \<and> awayRounds m \<noteq> None \<and> winnerId m \<noteq> None
        \<and> (winnerId m = homeTeamId m \<or> winnerId m = awayTeamId m))"

definition registryOk :: "registry \<Rightarrow> bool" where
  "registryOk reg \<longleftrightarrow> (\<forall>kt\<in>set reg. \<forall>m\<in>set (matches (snd kt)). completedOk m)"

text \<open>
  A run of the operations, the end-to-end scenario of the specification: the tournament
  ``Cup'' for four teams is created and opened, the teams A, B, C and D register, the
  tournament is started (the shuffle reverses the teams), and the three matches are
  reported as 13-7, 12-14 and 13-9.
\<close>

definition exampleRun1 :: registry where
  "exampleRun1 = fst (create 1 []
     \<lparr>CreateTournamentOptions.name = ''Cup'', teamCount = 4, guildId = ''g''\<rparr>)"

definition exampleRun2 :: registry where
  "exampleRun2 = fst (startRegistration 2 exampleRun1 ''t_1'')"

definition exampleRun3 :: registry where
  "exampleRun3 = fst (registerTeam (3, ''aa'') exampleRun2
     \<lparr>RegisterTeamOptions.tournamentId = ''t_1'', name = ''A'', captainId = ''u1'',
      captainName = ''c1''\<rparr>)"

definition exampleRun4 :: registry where
  "exampleRun4 = fst (registerTeam (4, ''bb'') exampleRun3
     \<lparr>RegisterTeamOptions.tournamentId = ''t_1'', name = ''B'', captainId = ''u2'',
      captainName = ''c2''\<rparr>)"

definition exampleRun5 :: registry where
  "exampleRun5 = fst (registerTeam (5, ''cc'') exampleRun4
     \<lparr>RegisterTeamOptions.tournamentId = ''t_1'', name = ''C'', captainId = ''u3'',
      captainName = ''c3''\<rparr>)"

definition exampleRun6 :: registry where
  "exampleRun6 = fst (registerTeam (6, ''dd'') exampleRun5
     \<lparr>RegisterTeamOptions.tournamentId = ''t_1'', name = ''D'', captainId = ''u4'',
      captainName = ''c4''\<rparr>)"

definition exampleRun7 :: registry where
  "exampleRun7 = fst (startTournament 7 exampleGen
     (rev (teams (the (map_of exampleRun6 ''t_1'')))) exampleRun6 ''t_1'')"

definition exampleRun8 :: registry where
  "exampleRun8 = fst (reportMatchResult 8 exampleRun7 ''t_1'' ''match_100_ab'' 13 7)"

definition exampleRun9 :: registry where
  "exampleRun9 = fst (reportMatchResult 9 exampleRun8 ''t_1'' ''match_101_ab'' 12 14)"

definition exampleRun10 :: registry where
  "exampleRun10 = fst (reportMatchResult 10 exampleRun9 ''t_1'' ''match_102_ab'' 13 9)"

section \<open>Properties of the scoring rule\<close>

lemma Number_isInteger_Ints: "Number_isInteger x \<longleftrightarrow> x \<in> \<int>"
  unfolding Number_isInteger_def by (metis Ints_of_int of_int_floor)

lemma Number_isInteger_of_int [simp]: "Number_isInteger (of_int a)"
  by (simp add: Number_isInteger_def)

lemma isValidValorantScore_real:
  "isValidValorantScore x y \<longleftrightarrow>
     x \<in> \<int> \<and> y \<in> \<int> \<and> 0 \<le> x \<and> 0 \<le> y \<and> x \<noteq> y \<and>
     (max x y = 13 \<and> min x y \<le> 11 \<or> 12 \<le> min x y \<and> 2 \<le> max x y - min x y)"
  unfolding isValidValorantScore_def Let_def Number_isInteger_Ints
  by auto

text \<open>
  C1. For all integers a and b, isValidValorantScore returns true exactly when both are
  non-negative, they differ, and either the larger is 13 with the smaller at most 11
  (regulation win) or the smaller is at least 12 with a gap of at least 2 (extended play);
  on arbitrary real arguments x and y the same holds with the condition that both are
  integers. The table of the spec: (13,11) true, (13,12) false, (12,12) false, (14,12) true,
  (14,13) false, (16,14) true, (0,0) false.
\<close>

theorem isValidValorantScore_iff:
  "(isValidValorantScore (of_int a) (of_int b) =
      (0 \<le> a \<and> 0 \<le> b \<and> a \<noteq> b \<and>
       (max a b = 13 \<and> min a b \<le> 11 \<or> 12 \<le> min a b \<and> 2 \<le> max a b - min a b)))
   \<and> (isValidValorantScore x y =
      (x \<in> \<int> \<and> y \<in> \<int> \<and> 0 \<le> x \<and> 0 \<le> y \<and> x \<noteq> y \<and>
       (max x y = 13 \<and> min x y \<le> 11 \<or> 12 \<le> min x y \<and> 2 \<le> max x y - min x y)))
   \<and> isValidValorantScore 13 11 \<and> \<not> isValidValorantScore 13 12
   \<and> \<not> isValidValorantScore 12 12 \<and> isValidValorantScore 14 12
   \<and> \<not> isValidValorantScore 14 13 \<and> isValidValorantScore 16 14
   \<and> \<not> isValidValorantScore 0 0"
proof -
  have gen: "isValidValorantScore (of_int a) (of_int b) =
      (0 \<le> a \<and> 0 \<le> b \<and> a \<noteq> b \<and>
       (max a b = 13 \<and> min a b \<le> 11 \<or> 12 \<le> min a b \<and> 2 \<le> max a b - min a b))"
    for a b :: int
  proof -
    have m: "max (real_of_int a) (of_int b) = of_int (max a b)"
      "min (real_of_int a) (of_int b) = of_int (min a b)"
      by (simp_all add: max_def min_def)
    have d: "(2 \<le> real_of_int (max a b) - of_int (min a b)) = (2 \<le> max a b - min a b)"
      by linarith
    show ?thesis
      unfolding isValidValorantScore_real m d by auto
  qed
  have tab: "isValidValorantScore 13 11" "\<not> isValidValorantScore 13 12"
    "\<not> isValidValorantScore 12 12" "isValidValorantScore 14 12"
    "\<not> isValidValorantScore 14 13" "isValidValorantScore 16 14"
    "\<not> isValidValorantScore 0 0"
    by (simp_all add: isValidValorantScore_def Number_isInteger_def)
  from gen tab isValidValorantScore_real [of x y] show ?thesis by blast
qed

theorem isValidValorantScore_iff_witness:
  "isValidValorantScore (of_int 14) (of_int 12) \<and> \<not> isValidValorantScore (of_int 13) (of_int 12)"
  using isValidValorantScore_iff [of 14 12 0 0] isValidValorantScore_iff [of 13 12 0 0] by simp

text \<open>
  C9. getWinner returns null exactly when isValidValorantScore is false; otherwise it
  returns home when the home score is the larger and away when it is the smaller, on
  integers and on arbitrary real arguments. The function is a total HOL function of its
  two arguments, with no state.
\<close>

theorem getWinner_spec:
  "(getWinner (of_int a) (of_int b) = None) = (\<not> isValidValorantScore (of_int a) (of_int b))
   \<and> (getWinner (of_int a) (of_int b) = Some Home) =
       (isValidValorantScore (of_int a) (of_int b) \<and> a > b)
   \<and> (getWinner (of_int a) (of_int b) = Some Away) =
       (isValidValorantScore (of_int a) (of_int b) \<and> a < b)
   \<and> (getWinner x y = None) = (\<not> isValidValorantScore x y)
   \<and> (getWinner x y = Some Home) = (isValidValorantScore x y \<and> x > y)
   \<and> (getWinner x y = Some Away) = (isValidValorantScore x y \<and> x < y)"
proof -
  have ne: "isValidValorantScore u v \<Longrightarrow> u \<noteq> v" for u v
    by (auto simp: isValidValorantScore_real)
  have "a \<noteq> b" if "isValidValorantScore (of_int a) (of_int b)"
    using ne [OF that] by auto
  with ne [of x y] show ?thesis
    by (auto simp: getWinner_def)
qed

theorem getWinner_spec_witness:
  "getWinner (of_int 13) (of_int 7) = Some Home \<and> getWinner (of_int 12) (of_int 14) = Some Away
   \<and> getWinner (of_int 13) (of_int 12) = None"
proof -
  have v: "isValidValorantScore (of_int 13) (of_int 7)" "isValidValorantScore (of_int 12) (of_int 14)"
    "\<not> isValidValorantScore (of_int 13) (of_int 12)"
    by (simp_all add: isValidValorantScore_def Number_isInteger_def)
  show ?thesis
    using getWinner_spec [of 13 7 0 0] getWinner_spec [of 12 14 0 0]
      getWinner_spec [of 13 12 0 0] v
    by simp
qed

section \<open>Closure of the reachable registries\<close>

text \<open>
  The registry that an operation returns from a reachable one is reachable, whatever the
  outcome of the operation.
\<close>

lemma reachable_create:
  "reachable reg \<Longrightarrow> CreateTournamentOptions.teamCount options = 2 ^ k \<Longrightarrow>
     reachable (fst (create now reg options))"
  using reachable.by_create [of reg options k now "fst (create now reg options)"
      "snd (create now reg options)"]
  by simp

lemma reachable_startRegistration:
  "reachable reg \<Longrightarrow> reachable (fst (startRegistration now reg tid))"
  using reachable.by_startRegistration [of reg now tid "fst (startRegistration now reg tid)"
      "snd (startRegistration now reg tid)"]
  by simp

lemma reachable_registerTeam:
  "reachable reg \<Longrightarrow> reachable (fst (registerTeam e reg ropts))"
  using reachable.by_registerTeam [of reg e ropts "fst (registerTeam e reg ropts)"
      "snd (registerTeam e reg ropts)"]
  by simp

lemma reachable_startTournament:
  "reachable reg \<Longrightarrow> map_of reg tid = Some tournament \<Longrightarrow>
     mset shuffledTeams = mset (teams tournament) \<Longrightarrow>
     reachable (fst (startTournament now gen shuffledTeams reg tid))"
  using reachable.by_startTournament [of reg tid tournament shuffledTeams now gen
      "fst (startTournament now gen shuffledTeams reg tid)"
      "snd (startTournament now gen shuffledTeams reg tid)"]
  by simp

lemma reachable_reportMatchResult:
  "reachable reg \<Longrightarrow> reachable (fst (reportMatchResult now reg tid mid h a))"
  using reachable.by_reportMatchResult [of reg now tid mid h a
      "fst (reportMatchResult now reg tid mid h a)" "snd (reportMatchResult now reg tid mid h a)"]
  by simp

lemma reachable_exampleRun9: "reachable exampleRun9"
proof -
  have r1: "reachable exampleRun1"
    unfolding exampleRun1_def
    by (rule reachable_create [OF reachable.initial, where k = 2]) simp
  have r2: "reachable exampleRun2"
    unfolding exampleRun2_def using r1 by (rule reachable_startRegistration)
  have r3: "reachable exampleRun3"
    unfolding exampleRun3_def using r2 by (rule reachable_registerTeam)
  have r4: "reachable exampleRun4"
    unfolding exampleRun4_def using r3 by (rule reachable_registerTeam)
  have r5: "reachable exampleRun5"
    unfolding exampleRun5_def using r4 by (rule reachable_registerTeam)
  have r6: "reachable exampleRun6"
    unfolding exampleRun6_def using r5 by (rule reachable_registerTeam)
  have "map_of exampleRun6 ''t_1'' \<noteq> None" by code_simp
  then have t6: "map_of exampleRun6 ''t_1'' = Some (the (map_of exampleRun6 ''t_1''))"
    by simp
  have sh: "mset (rev (teams (the (map_of exampleRun6 ''t_1''))))
      = mset (teams (the (map_of exampleRun6 ''t_1'')))"
    by simp
  have r7: "reachable exampleRun7"
    unfolding exampleRun7_def using r6 t6 sh by (rule reachable_startTournament)
  have r8: "reachable exampleRun8"
    unfolding exampleRun8_def using r7 by (rule reachable_reportMatchResult)
  show ?thesis
    unfolding exampleRun9_def using r8 by (rule reachable_reportMatchResult)
qed

section \<open>Properties of reporting a result\<close>

subsection \<open>Lookups by index\<close>

lemma findIndex_Some:
  "findIndex P xs = Some i \<Longrightarrow> i < length xs \<and> P (xs ! i) \<and> (\<forall>k<i. \<not> P (xs ! k))"
proof (induction xs arbitrary: i)
  case Nil
  then show ?case by simp
next
  case (Cons x xs)
  show ?case
  proof (cases "P x")
    case True
    with Cons.prems show ?thesis by simp
  next
    case False
    with Cons.prems obtain i' where i': "findIndex P xs = Some i'" "i = Suc i'"
      by auto
    from Cons.IH [OF i'(1)] False i'(2) show ?thesis
      by (auto simp: nth_Cons split: nat.splits)
  qed
qed

lemma findIndex_None: "findIndex P xs = None \<longleftrightarrow> (\<forall>x\<in>set xs. \<not> P x)"
  by (induction xs) auto

lemma findIndex_map_eq:
  "map f xs = map f ys \<Longrightarrow> findIndex (\<lambda>x. Q (f x)) xs = findIndex (\<lambda>x. Q (f x)) ys"
proof (induction xs arbitrary: ys)
  case Nil
  then show ?case by simp
next
  case (Cons x xs)
  then obtain y ys' where "ys = y # ys'" "f x = f y" "map f xs = map f ys'"
    by (cases ys) auto
  with Cons.IH show ?case by simp
qed

lemma map_id_list_update:
  assumes "f (xs ! j) = f x"
  shows "map f (xs[j := x]) = map f xs"
proof (cases "j < length xs")
  case True
  with assms show ?thesis by (simp add: map_update list_update_same_conv)
next
  case False
  then have "xs[j := x] = xs" by (intro list_update_beyond) simp
  then show ?thesis by simp
qed

subsection \<open>What the progress check leaves alone\<close>

lemma stageLoop_Inr_fields:
  "stageLoop now t ss cur = Inr (t', cur', c, ch, ru) \<Longrightarrow>
     matches t' = matches t \<and> teams t' = teams t \<and> Tournament.id t' = Tournament.id t
     \<and> totalStages t' = totalStages t
     \<and> Tournament.status t' = (if c then TournamentCompleted else Tournament.status t)"
proof (induction ss arbitrary: cur)
  case Nil
  then show ?case by simp
next
  case (Cons s ss)
  then show ?case
    by (auto simp: Let_def split: if_splits list.splits)
qed

lemma checkTournamentProgress_fields:
  "checkTournamentProgress now t = Inr (t', r) \<Longrightarrow>
     matches t' = matches t \<and> teams t' = teams t \<and> Tournament.id t' = Tournament.id t
     \<and> totalStages t' = totalStages t
     \<and> Tournament.status t' = (if isCompleted r then TournamentCompleted else Tournament.status t)"
  unfolding checkTournamentProgress_def Let_def
  by (auto split: sum.splits prod.splits dest!: stageLoop_Inr_fields)

subsection \<open>The writes to the two matches\<close>

lemma completeMatch_simps [simp]:
  "Match.id (completeMatch now h a m) = Match.id m"
  "Match.stage (completeMatch now h a m) = Match.stage m"
  "stagePosition (completeMatch now h a m) = stagePosition m"
  "nextMatchId (completeMatch now h a m) = nextMatchId m"
  "homeTeamId (completeMatch now h a m) = homeTeamId m"
  "awayTeamId (completeMatch now h a m) = awayTeamId m"
  "Match.status (completeMatch now h a m) = Completed"
  "homeRounds (completeMatch now h a m) = Some h"
  "awayRounds (completeMatch now h a m) = Some a"
  by (simp_all add: completeMatch_def Let_def)

lemma winnerId_completeMatch:
  "isValidValorantScore h a \<Longrightarrow>
     winnerId (completeMatch now h a m) = (if a < h then homeTeamId m else awayTeamId m)"
  by (simp add: completeMatch_def Let_def getWinner_def)

lemma fillSlot_simps [simp]:
  "Match.id (fillSlot now w m) = Match.id m"
  "Match.stage (fillSlot now w m) = Match.stage m"
  "stagePosition (fillSlot now w m) = stagePosition m"
  "nextMatchId (fillSlot now w m) = nextMatchId m"
  "winnerId (fillSlot now w m) = winnerId m"
  "homeRounds (fillSlot now w m) = homeRounds m"
  "awayRounds (fillSlot now w m) = awayRounds m"
  by (simp_all add: fillSlot_def Let_def)

lemma homeTeamId_fillSlot:
  "homeTeamId (fillSlot now w m) = (if truthy (homeTeamId m) then homeTeamId m else w)"
  by (simp add: fillSlot_def Let_def)

lemma awayTeamId_fillSlot:
  "awayTeamId (fillSlot now w m) =
     (if truthy (homeTeamId m) \<and> \<not> truthy (awayTeamId m) then w else awayTeamId m)"
  by (simp add: fillSlot_def Let_def)

lemma status_fillSlot:
  "Match.status (fillSlot now w m) =
     (if truthy (homeTeamId (fillSlot now w m)) \<and> truthy (awayTeamId (fillSlot now w m))
         \<and> Match.status m = Pending then Ready else Match.status m)"
  by (simp add: fillSlot_def Let_def)

lemma propagate_length [simp]: "length (fst (propagate now i ms)) = length ms"
  by (simp add: propagate_def Let_def split: option.splits)

lemma propagate_ids [simp]: "map Match.id (fst (propagate now i ms)) = map Match.id ms"
  by (simp add: propagate_def Let_def map_id_list_update split: option.splits)

lemma propagate_link:
  assumes "nextMatchId (ms ! i) = Some nid" "nid \<noteq> []"
    and "findIndex (\<lambda>m. Match.id m = nid) ms = Some j"
  shows "propagate now i ms =
           (ms[j := fillSlot now (winnerId (ms ! i)) (ms ! j)],
            [fillSlot now (winnerId (ms ! i)) (ms ! j)])"
proof -
  have "j < length ms" using assms(3) by (auto dest: findIndex_Some)
  moreover have "(\<lambda>m. Some (Match.id m) = Some nid) = (\<lambda>m. Match.id m = nid)" by auto
  ultimately show ?thesis
    using assms by (simp add: propagate_def Let_def)
qed



lemma truthy_conv: "x \<noteq> Some [] \<Longrightarrow> truthy x \<longleftrightarrow> x \<noteq> None"
  by (cases x) auto

lemma truthyD: "truthy x \<Longrightarrow> x \<noteq> None \<and> x \<noteq> Some []"
  by (cases x) auto

subsection \<open>A successful report\<close>

lemmas example_defs = exampleCup_def exampleCupT_def exampleFinal_def exampleFinalT_def
  exampleDoneT_def exampleMatch_def exampleTeam_def

lemmas report_defs = reportMatchResult_def isValidValorantScore_def Number_isInteger_def
  getWinner_def completeMatch_def propagate_def fillSlot_def checkTournamentProgress_def
  findTeam_def Let_def scoreProblem_def

lemma reportMatchResult_Inr:
  assumes "reportMatchResult now reg tid mid h a = (reg', Inr r)"
  shows "\<exists>t i t'. isValidValorantScore h a \<and> map_of reg tid = Some t
     \<and> Tournament.status t = Active
     \<and> findIndex (\<lambda>m. Match.id m = mid) (matches t) = Some i
     \<and> Match.status (matches t ! i) \<noteq> Completed
     \<and> truthy (homeTeamId (matches t ! i)) \<and> truthy (awayTeamId (matches t ! i))
     \<and> map_of reg' tid = Some t'
     \<and> matches t' = fst (propagate now i ((matches t)[i := completeMatch now h a (matches t ! i)]))
     \<and> nextMatches r = snd (propagate now i ((matches t)[i := completeMatch now h a (matches t ! i)]))
     \<and> match r = matches t' ! i
     \<and> teams t' = teams t
     \<and> Tournament.status t' = (if tournamentCompleted r then TournamentCompleted else Active)"
  using assms unfolding reportMatchResult_def Let_def
  by (auto split: if_splits option.splits sum.splits prod.splits
      simp: update_conv' dest!: checkTournamentProgress_fields)

lemma report_step:
  assumes ok: "reportMatchResult now reg tid mid h a = (reg', Inr r)"
    and t: "map_of reg tid = Some t"
    and i: "findIndex (\<lambda>m. Match.id m = mid) (matches t) = Some i"
    and link: "nextMatchId (matches t ! i) = Some nid" "nid \<noteq> []"
    and j: "findIndex (\<lambda>m. Match.id m = nid) (matches t) = Some j" "j \<noteq> i"
  shows "\<exists>t'. map_of reg' tid = Some t'
      \<and> map Match.id (matches t') = map Match.id (matches t)
      \<and> matches t' ! i = completeMatch now h a (matches t ! i)
      \<and> matches t' ! j = fillSlot now (winnerId (completeMatch now h a (matches t ! i))) (matches t ! j)
      \<and> (\<forall>k. k \<noteq> i \<and> k \<noteq> j \<longrightarrow> matches t' ! k = matches t ! k)
      \<and> nextMatches r = [matches t' ! j]
      \<and> winnerId (completeMatch now h a (matches t ! i))
           = (if a < h then homeTeamId (matches t ! i) else awayTeamId (matches t ! i))
      \<and> truthy (winnerId (completeMatch now h a (matches t ! i)))"
proof -
  from reportMatchResult_Inr [OF ok] t i obtain t' :: Tournament where
    valid: "isValidValorantScore h a"
    and slots: "truthy (homeTeamId (matches t ! i))" "truthy (awayTeamId (matches t ! i))"
    and t': "map_of reg' tid = Some t'"
    and ms: "matches t' = fst (propagate now i ((matches t)[i := completeMatch now h a (matches t ! i)]))"
    and nx: "nextMatches r = snd (propagate now i ((matches t)[i := completeMatch now h a (matches t ! i)]))"
    by auto
  let ?m1 = "completeMatch now h a (matches t ! i)"
  let ?ms1 = "(matches t)[i := ?m1]"
  have li: "i < length (matches t)" and lj: "j < length (matches t)"
    using i j by (auto dest: findIndex_Some)
  have ids: "map Match.id ?ms1 = map Match.id (matches t)"
    by (simp add: map_id_list_update)
  have j1: "findIndex (\<lambda>m. Match.id m = nid) ?ms1 = Some j"
    using findIndex_map_eq [OF ids, of "\<lambda>x. x = nid"] j by simp
  have "nextMatchId (?ms1 ! i) = Some nid" using li link by simp
  from propagate_link [OF this link(2) j1, of now]
  have p: "propagate now i ?ms1 = (?ms1[j := fillSlot now (winnerId ?m1) (matches t ! j)],
      [fillSlot now (winnerId ?m1) (matches t ! j)])"
    using li lj j(2) by simp
  have w: "winnerId ?m1 = (if a < h then homeTeamId (matches t ! i) else awayTeamId (matches t ! i))"
    using valid by (rule winnerId_completeMatch)
  have "map Match.id (matches t') = map Match.id (matches t)"
    unfolding ms using ids by simp
  moreover have "matches t' ! i = ?m1" unfolding ms p using li j(2) by simp
  moreover have "matches t' ! j = fillSlot now (winnerId ?m1) (matches t ! j)"
    unfolding ms p using lj by simp
  moreover have "\<forall>k. k \<noteq> i \<and> k \<noteq> j \<longrightarrow> matches t' ! k = matches t ! k"
    unfolding ms p by simp
  moreover have "nextMatches r = [matches t' ! j]" unfolding nx ms p using lj by simp
  moreover have "truthy (winnerId ?m1)" unfolding w using slots by simp
  ultimately show ?thesis using t' w by blast
qed

subsection \<open>Validation comes first\<close>

text \<open>
  C10. reportMatchResult validates the score pair before any lookup or state check:
  for every invalid pair (draw, negative, non-integer, below the threshold, or an
  extension gap that is too small) the call fails with InvalidScore whatever the registry,
  the tournament id and the match id are, and the registry is returned as it was.
\<close>

theorem reportMatchResult_invalid_score:
  "\<not> isValidValorantScore h a \<Longrightarrow>
     reportMatchResult now reg tid mid h a = (reg, Inl (InvalidScore (scoreProblem h a)))"
  by (simp add: reportMatchResult_def)

theorem reportMatchResult_invalid_score_witness:
  "reportMatchResult 9 exampleFinal ''t_1'' ''m1'' 13 12 = (exampleFinal, Inl (InvalidScore OvertimeRequired))
   \<and> reportMatchResult 9 [] ''nowhere'' ''m0'' (5 / 2) 13 = ([], Inl (InvalidScore OtherInvalid))
   \<and> reportMatchResult 9 exampleCup ''t_1'' ''m3'' (- 1) 13 = (exampleCup, Inl (InvalidScore OtherInvalid))"
proof -
  have inv: "\<not> isValidValorantScore 13 12" "\<not> isValidValorantScore (5 / 2) 13"
    "\<not> isValidValorantScore (- 1) 13"
    by (simp_all add: isValidValorantScore_def Number_isInteger_def)
  have p: "scoreProblem 13 12 = OvertimeRequired" "scoreProblem (5 / 2) 13 = OtherInvalid"
    "scoreProblem (- 1) 13 = OtherInvalid"
    by (simp_all add: scoreProblem_def)
  show ?thesis
    using reportMatchResult_invalid_score [OF inv(1), of 9 exampleFinal "''t_1''" "''m1''"]
      reportMatchResult_invalid_score [OF inv(2), of 9 "[]" "''nowhere''" "''m0''"]
      reportMatchResult_invalid_score [OF inv(3), of 9 exampleCup "''t_1''" "''m3''"]
    by (simp add: p)
qed

subsection \<open>Reporting twice\<close>




subsection \<open>Propagation of the winner\<close>

text \<open>
  C4. When reportMatchResult completes a match with a forward link that resolves to
  another match of the tournament, the winner (the home team when the home score is the
  larger, else the away team) goes into the target's home slot if that is null, else into
  its away slot if that is null, and the other slot is unchanged; the target becomes
  ready when both slots are then filled and it was pending; no third match changes.
  Consequently, for a target with two null slots, the first feeder fills the home slot
  only and the target stays pending, and the second feeder fills the away slot and the
  target becomes ready. Ids are taken to be non-empty strings, as the generated ones are.
\<close>

theorem reportMatchResult_propagation:
  assumes ok: "reportMatchResult now reg tid mid h a = (reg', Inr r)"
    and t: "map_of reg tid = Some t" and t': "map_of reg' tid = Some t'"
    and i: "findIndex (\<lambda>m. Match.id m = mid) (matches t) = Some i"
    and link: "nextMatchId (matches t ! i) = Some nid" "nid \<noteq> []"
    and j: "findIndex (\<lambda>m. Match.id m = nid) (matches t) = Some j" "j \<noteq> i"
    and wf: "homeTeamId (matches t ! j) \<noteq> Some []" "awayTeamId (matches t ! j) \<noteq> Some []"
  shows "winnerId (matches t' ! i)
           = (if a < h then homeTeamId (matches t ! i) else awayTeamId (matches t ! i))
     \<and> winnerId (matches t' ! i) \<noteq> None
     \<and> (homeTeamId (matches t ! j) = None \<longrightarrow>
          homeTeamId (matches t' ! j) = winnerId (matches t' ! i)
          \<and> awayTeamId (matches t' ! j) = awayTeamId (matches t ! j))
     \<and> (homeTeamId (matches t ! j) \<noteq> None \<and> awayTeamId (matches t ! j) = None \<longrightarrow>
          homeTeamId (matches t' ! j) = homeTeamId (matches t ! j)
          \<and> awayTeamId (matches t' ! j) = winnerId (matches t' ! i))
     \<and> (homeTeamId (matches t ! j) \<noteq> None \<and> awayTeamId (matches t ! j) \<noteq> None \<longrightarrow>
          homeTeamId (matches t' ! j) = homeTeamId (matches t ! j)
          \<and> awayTeamId (matches t' ! j) = awayTeamId (matches t ! j))
     \<and> Match.status (matches t' ! j) =
          (if homeTeamId (matches t' ! j) \<noteq> None \<and> awayTeamId (matches t' ! j) \<noteq> None
              \<and> Match.status (matches t ! j) = Pending
           then Ready else Match.status (matches t ! j))
     \<and> (\<forall>k. k \<noteq> i \<and> k \<noteq> j \<longrightarrow> matches t' ! k = matches t ! k)
     \<and> (\<forall>now2 mid2 h2 a2 reg2 r2 i2 t2.
          homeTeamId (matches t ! j) = None \<and> awayTeamId (matches t ! j) = None
          \<and> Match.status (matches t ! j) = Pending
          \<and> reportMatchResult now2 reg' tid mid2 h2 a2 = (reg2, Inr r2)
          \<and> findIndex (\<lambda>m. Match.id m = mid2) (matches t) = Some i2 \<and> i2 \<noteq> j
          \<and> nextMatchId (matches t ! i2) = Some nid
          \<and> map_of reg2 tid = Some t2
          \<longrightarrow> i2 \<noteq> i
            \<and> homeTeamId (matches t' ! j) = winnerId (matches t' ! i)
            \<and> awayTeamId (matches t' ! j) = None
            \<and> Match.status (matches t' ! j) = Pending
            \<and> homeTeamId (matches t2 ! j) = winnerId (matches t' ! i)
            \<and> awayTeamId (matches t2 ! j) = winnerId (matches t2 ! i2)
            \<and> winnerId (matches t2 ! i2) \<noteq> None
            \<and> Match.status (matches t2 ! j) = Ready)"
proof -
  let ?w = "winnerId (completeMatch now h a (matches t ! i))"
  from report_step [OF ok t i link j] t' have
    ids: "map Match.id (matches t') = map Match.id (matches t)"
    and mi: "matches t' ! i = completeMatch now h a (matches t ! i)"
    and mj: "matches t' ! j = fillSlot now ?w (matches t ! j)"
    and frame: "\<forall>k. k \<noteq> i \<and> k \<noteq> j \<longrightarrow> matches t' ! k = matches t ! k"
    and w: "?w = (if a < h then homeTeamId (matches t ! i) else awayTeamId (matches t ! i))"
    and tw: "truthy ?w"
    by auto
  have wne: "?w \<noteq> None" "?w \<noteq> Some []" using truthyD [OF tw] by simp_all
  have th: "truthy (homeTeamId (matches t ! j)) \<longleftrightarrow> homeTeamId (matches t ! j) \<noteq> None"
    and ta: "truthy (awayTeamId (matches t ! j)) \<longleftrightarrow> awayTeamId (matches t ! j) \<noteq> None"
    using wf by (simp_all add: truthy_conv)
  have hj: "homeTeamId (matches t' ! j) = (if homeTeamId (matches t ! j) = None then ?w
              else homeTeamId (matches t ! j))"
    unfolding mj homeTeamId_fillSlot th by simp
  have aj: "awayTeamId (matches t' ! j) =
      (if homeTeamId (matches t ! j) \<noteq> None \<and> awayTeamId (matches t ! j) = None then ?w
       else awayTeamId (matches t ! j))"
    unfolding mj awayTeamId_fillSlot th ta by simp
  have wf': "homeTeamId (matches t' ! j) \<noteq> Some []" "awayTeamId (matches t' ! j) \<noteq> Some []"
    unfolding hj aj using wf wne by auto
  have sj: "Match.status (matches t' ! j) =
          (if homeTeamId (matches t' ! j) \<noteq> None \<and> awayTeamId (matches t' ! j) \<noteq> None
              \<and> Match.status (matches t ! j) = Pending
           then Ready else Match.status (matches t ! j))"
    using status_fillSlot [of now ?w "matches t ! j"] wf'
    unfolding mj [symmetric] by (simp add: truthy_conv)
  have part1: "winnerId (matches t' ! i)
           = (if a < h then homeTeamId (matches t ! i) else awayTeamId (matches t ! i))"
    "winnerId (matches t' ! i) \<noteq> None"
    using w wne mi by simp_all
  have second: "i2 \<noteq> i
            \<and> homeTeamId (matches t' ! j) = winnerId (matches t' ! i)
            \<and> awayTeamId (matches t' ! j) = None
            \<and> Match.status (matches t' ! j) = Pending
            \<and> homeTeamId (matches t2 ! j) = winnerId (matches t' ! i)
            \<and> awayTeamId (matches t2 ! j) = winnerId (matches t2 ! i2)
            \<and> winnerId (matches t2 ! i2) \<noteq> None
            \<and> Match.status (matches t2 ! j) = Ready"
    if empty: "homeTeamId (matches t ! j) = None" "awayTeamId (matches t ! j) = None"
        "Match.status (matches t ! j) = Pending"
      and ok2: "reportMatchResult now2 reg' tid mid2 h2 a2 = (reg2, Inr r2)"
      and i2: "findIndex (\<lambda>m. Match.id m = mid2) (matches t) = Some i2" "i2 \<noteq> j"
      and link2: "nextMatchId (matches t ! i2) = Some nid"
      and t2: "map_of reg2 tid = Some t2"
    for now2 mid2 h2 a2 reg2 r2 i2 and t2 :: Tournament
  proof -
    have i2': "findIndex (\<lambda>m. Match.id m = mid2) (matches t') = Some i2"
      using findIndex_map_eq [OF ids, of "\<lambda>x. x = mid2"] i2 by simp
    have j': "findIndex (\<lambda>m. Match.id m = nid) (matches t') = Some j"
      using findIndex_map_eq [OF ids, of "\<lambda>x. x = nid"] j by simp
    from reportMatchResult_Inr [OF ok2] t' i2'
    have "Match.status (matches t' ! i2) \<noteq> Completed" by auto
    then have ne: "i2 \<noteq> i" using mi by auto
    then have same: "matches t' ! i2 = matches t ! i2" using frame i2(2) by simp
    then have link2': "nextMatchId (matches t' ! i2) = Some nid" using link2 by simp
    let ?w2 = "winnerId (completeMatch now2 h2 a2 (matches t' ! i2))"
    from report_step [OF ok2 t' i2' link2' link(2) j' i2(2) [symmetric]] t2 have
      mi2: "matches t2 ! i2 = completeMatch now2 h2 a2 (matches t' ! i2)"
      and mj2: "matches t2 ! j = fillSlot now2 ?w2 (matches t' ! j)"
      and tw2: "truthy ?w2"
      by auto
    have h1: "homeTeamId (matches t' ! j) = ?w" and a1: "awayTeamId (matches t' ! j) = None"
      and s1: "Match.status (matches t' ! j) = Pending"
      using hj aj sj empty by simp_all
    have "homeTeamId (matches t2 ! j) = ?w" "awayTeamId (matches t2 ! j) = ?w2"
      "Match.status (matches t2 ! j) = Ready"
      unfolding mj2 using h1 a1 s1 tw tw2
      by (simp_all add: fillSlot_def Let_def)
    moreover have "?w2 \<noteq> None" using truthyD [OF tw2] by simp
    ultimately show ?thesis using ne h1 a1 s1 mi mi2 by simp
  qed
  have third: "homeTeamId (matches t ! j) = None \<longrightarrow>
          homeTeamId (matches t' ! j) = winnerId (matches t' ! i)
          \<and> awayTeamId (matches t' ! j) = awayTeamId (matches t ! j)"
    using hj aj mi by simp
  have fourth: "homeTeamId (matches t ! j) \<noteq> None \<and> awayTeamId (matches t ! j) = None \<longrightarrow>
          homeTeamId (matches t' ! j) = homeTeamId (matches t ! j)
          \<and> awayTeamId (matches t' ! j) = winnerId (matches t' ! i)"
    using hj aj mi by simp
  have fifth: "homeTeamId (matches t ! j) \<noteq> None \<and> awayTeamId (matches t ! j) \<noteq> None \<longrightarrow>
          homeTeamId (matches t' ! j) = homeTeamId (matches t ! j)
          \<and> awayTeamId (matches t' ! j) = awayTeamId (matches t ! j)"
    using hj aj by simp
  show ?thesis
    apply (intro conjI)
           apply (rule part1(1))
          apply (rule part1(2))
         apply (rule third)
        apply (rule fourth)
       apply (rule fifth)
      apply (rule sj)
     apply (rule frame)
    apply (intro allI impI)
    apply (elim conjE)
    apply (rule second; assumption)
    done
qed

theorem reportMatchResult_propagation_witness:
  "homeTeamId (matches (the (map_of (fst (reportMatchResult 3 exampleCup ''t_1'' ''m1'' 13 7)) ''t_1'')) ! 2)
     = Some ''team_a''
   \<and> awayTeamId (matches (the (map_of (fst (reportMatchResult 3 exampleCup ''t_1'' ''m1'' 13 7)) ''t_1'')) ! 2)
     = None
   \<and> Match.status (matches (the (map_of (fst (reportMatchResult 3 exampleCup ''t_1'' ''m1'' 13 7)) ''t_1'')) ! 2)
     = Pending
   \<and> Match.status (matches (the (map_of (fst (reportMatchResult 4
         (fst (reportMatchResult 3 exampleCup ''t_1'' ''m1'' 13 7)) ''t_1'' ''m2'' 12 14)) ''t_1'')) ! 2)
     = Ready"
proof -
  let ?c1 = "reportMatchResult 3 exampleCup ''t_1'' ''m1'' 13 7"
  let ?c2 = "reportMatchResult 4 (fst ?c1) ''t_1'' ''m2'' 12 14"
  have ok: "?c1 = (fst ?c1, Inr (projr (snd ?c1)))"
    by (simp add: report_defs example_defs)
  have t: "map_of exampleCup ''t_1'' = Some exampleCupT"
    by (simp add: exampleCup_def)
  have t': "map_of (fst ?c1) ''t_1'' = Some (the (map_of (fst ?c1) ''t_1''))"
    by (simp add: report_defs example_defs)
  have i: "findIndex (\<lambda>m. Match.id m = ''m1'') (matches exampleCupT) = Some 0"
    by (simp add: example_defs)
  have link: "nextMatchId (matches exampleCupT ! 0) = Some ''m3''" "''m3'' \<noteq> []"
    by (simp_all add: example_defs)
  have j: "findIndex (\<lambda>m. Match.id m = ''m3'') (matches exampleCupT) = Some 2" "(2::nat) \<noteq> 0"
    by (simp_all add: example_defs)
  have wf: "homeTeamId (matches exampleCupT ! 2) \<noteq> Some []"
    "awayTeamId (matches exampleCupT ! 2) \<noteq> Some []"
    by (simp_all add: example_defs)
  have empty: "homeTeamId (matches exampleCupT ! 2) = None"
    "awayTeamId (matches exampleCupT ! 2) = None"
    "Match.status (matches exampleCupT ! 2) = Pending"
    by (simp_all add: example_defs)
  have w: "homeTeamId (matches exampleCupT ! 0) = Some ''team_a''" "(7::real) < 13"
    by (simp_all add: example_defs)
  have ok2: "?c2 = (fst ?c2, Inr (projr (snd ?c2)))"
    by (simp add: report_defs example_defs)
  have i2: "findIndex (\<lambda>m. Match.id m = ''m2'') (matches exampleCupT) = Some 1" "(1::nat) \<noteq> 2"
    "nextMatchId (matches exampleCupT ! 1) = Some ''m3''"
    by (simp_all add: example_defs)
  have t2: "map_of (fst ?c2) ''t_1'' = Some (the (map_of (fst ?c2) ''t_1''))"
    by (simp add: report_defs example_defs)
  note main = reportMatchResult_propagation [OF ok t t' i link j wf]
  from main have a: "winnerId (matches (the (map_of (fst ?c1) ''t_1'')) ! 0) = Some ''team_a''"
    using w by simp
  from main have b: "homeTeamId (matches (the (map_of (fst ?c1) ''t_1'')) ! 2)
      = winnerId (matches (the (map_of (fst ?c1) ''t_1'')) ! 0)
    \<and> awayTeamId (matches (the (map_of (fst ?c1) ''t_1'')) ! 2) = None"
    using empty by simp
  from main have c: "Match.status (matches (the (map_of (fst ?c1) ''t_1'')) ! 2) = Pending"
    using empty b by simp
  from main have d: "Match.status (matches (the (map_of (fst ?c2) ''t_1'')) ! 2) = Ready"
    using empty ok2 i2 t2 by blast
  from a b c d show ?thesis by simp
qed

section \<open>Properties of the progress check\<close>

lemma length_filter_less_iff:
  "length (filter P xs) < length xs \<longleftrightarrow> (\<exists>x\<in>set xs. \<not> P x)"
proof (induction xs)
  case Nil
  then show ?case by simp
next
  case (Cons x xs)
  have "length (filter P xs) \<le> length xs" by simp
  with Cons show ?case by (auto simp: less_Suc_eq_le)
qed

lemma stage_incomplete_iff:
  "length (filter (\<lambda>m. Match.status m = Completed) (filter (\<lambda>m. Match.stage m = s) ms))
     < length (filter (\<lambda>m. Match.stage m = s) ms)
   \<longleftrightarrow> (\<exists>m\<in>set ms. Match.stage m = s \<and> Match.status m \<noteq> Completed)"
proof -
  have "length (filter (\<lambda>m. Match.status m = Completed) (filter (\<lambda>m. Match.stage m = s) ms))
     < length (filter (\<lambda>m. Match.stage m = s) ms)
   \<longleftrightarrow> (\<exists>m\<in>set (filter (\<lambda>m. Match.stage m = s) ms). Match.status m \<noteq> Completed)"
    by (rule length_filter_less_iff)
  then show ?thesis by auto
qed

lemma stageLoop_break:
  assumes "\<exists>m\<in>set (matches t). Match.stage m = s \<and> Match.status m \<noteq> Completed"
  shows "stageLoop now t (s # rest) cur = Inr (t, cur, False, None, None)"
  using assms by (simp add: Let_def stage_incomplete_iff del: filter_filter)

lemma stageLoop_next:
  assumes "\<forall>m\<in>set (matches t). Match.stage m = s \<longrightarrow> Match.status m = Completed"
    and "s \<noteq> totalStages t"
  shows "stageLoop now t (s # rest) cur = stageLoop now t rest (s + 1)"
proof -
  have "\<not> (\<exists>m\<in>set (matches t). Match.stage m = s \<and> Match.status m \<noteq> Completed)"
    using assms(1) by auto
  then show ?thesis
    using assms(2) by (simp add: Let_def stage_incomplete_iff del: filter_filter)
qed

lemma stageLoop_final:
  assumes "\<forall>m\<in>set (matches t). Match.stage m = totalStages t \<longrightarrow> Match.status m = Completed"
    and "filter (\<lambda>m. Match.stage m = totalStages t) (matches t) = f # fs"
  shows "stageLoop now t (totalStages t # rest) cur =
           Inr (t\<lparr>Tournament.status := TournamentCompleted, Tournament.completedAt := Some now,
                  Tournament.updatedAt := now\<rparr>,
                Suc (totalStages t), True,
                (if truthy (winnerId f) then map_option Team.name (findTeam t (winnerId f)) else None),
                (if truthy (winnerId f)
                 then map_option Team.name
                        (findTeam t (if homeTeamId f = winnerId f then awayTeamId f else homeTeamId f))
                 else None))"
proof -
  have "\<not> (\<exists>m\<in>set (matches t). Match.stage m = totalStages t \<and> Match.status m \<noteq> Completed)"
    using assms(1) by auto
  then have "stageLoop now t (totalStages t # rest) cur =
      (case filter (\<lambda>m. Match.stage m = totalStages t) (matches t) of
         [] \<Rightarrow> Inl TypeError
       | finalMatch # _ \<Rightarrow>
           Inr (t\<lparr>Tournament.status := TournamentCompleted, Tournament.completedAt := Some now,
                  Tournament.updatedAt := now\<rparr>,
                totalStages t + 1, True,
                (if truthy (winnerId finalMatch)
                 then map_option Team.name (findTeam t (winnerId finalMatch)) else None),
                (if truthy (winnerId finalMatch)
                 then map_option Team.name
                        (findTeam t (if homeTeamId finalMatch = winnerId finalMatch
                                     then awayTeamId finalMatch else homeTeamId finalMatch))
                 else None)))"
    by (simp add: Let_def stage_incomplete_iff del: filter_filter)
  then show ?thesis by (simp add: assms(2))
qed

lemma stageLoop_incomplete:
  assumes "k \<le> s" "s \<le> totalStages t"
    and "\<exists>m\<in>set (matches t). Match.stage m = s \<and> Match.status m \<noteq> Completed"
    and "\<forall>m\<in>set (matches t). k \<le> Match.stage m \<and> Match.stage m < s \<longrightarrow> Match.status m = Completed"
  shows "stageLoop now t [k..<Suc (totalStages t)] k = Inr (t, s, False, None, None)"
  using assms
proof (induction "s - k" arbitrary: k)
  case 0
  then have "k = s" by simp
  then have "[k..<Suc (totalStages t)] = s # [Suc s..<Suc (totalStages t)]"
    using "0.prems"(2) by (simp add: upt_conv_Cons)
  then show ?case
    using stageLoop_break [OF "0.prems"(3)] \<open>k = s\<close> by simp
next
  case (Suc n)
  then have lt: "k < s" by simp
  then have l: "[k..<Suc (totalStages t)] = k # [Suc k..<Suc (totalStages t)]"
    using Suc.prems(2) by (simp add: upt_conv_Cons)
  have c: "\<forall>m\<in>set (matches t). Match.stage m = k \<longrightarrow> Match.status m = Completed"
    using Suc.prems(4) lt by auto
  have ne: "k \<noteq> totalStages t" using lt Suc.prems(2) by simp
  have "stageLoop now t [Suc k..<Suc (totalStages t)] (Suc k) = Inr (t, s, False, None, None)"
    using Suc.hyps(2) Suc.prems lt by (intro Suc.hyps(1)) auto
  then show ?case
    unfolding l using stageLoop_next [OF c ne] by simp
qed

lemma stageLoop_complete:
  assumes "k \<le> totalStages t"
    and "\<forall>m\<in>set (matches t). k \<le> Match.stage m \<and> Match.stage m \<le> totalStages t
           \<longrightarrow> Match.status m = Completed"
    and "filter (\<lambda>m. Match.stage m = totalStages t) (matches t) = f # fs"
  shows "stageLoop now t [k..<Suc (totalStages t)] k =
           Inr (t\<lparr>Tournament.status := TournamentCompleted, Tournament.completedAt := Some now,
                  Tournament.updatedAt := now\<rparr>,
                Suc (totalStages t), True,
                (if truthy (winnerId f) then map_option Team.name (findTeam t (winnerId f)) else None),
                (if truthy (winnerId f)
                 then map_option Team.name
                        (findTeam t (if homeTeamId f = winnerId f then awayTeamId f else homeTeamId f))
                 else None))"
  using assms
proof (induction "totalStages t - k" arbitrary: k)
  case 0
  then have k: "k = totalStages t" by simp
  then have l: "[k..<Suc (totalStages t)] = [totalStages t]" by simp
  have c: "\<forall>m\<in>set (matches t). Match.stage m = totalStages t \<longrightarrow> Match.status m = Completed"
    using "0.prems"(2) k by auto
  show ?case
    unfolding l k using stageLoop_final [OF c "0.prems"(3)] by simp
next
  case (Suc n)
  then have lt: "k < totalStages t" by simp
  then have l: "[k..<Suc (totalStages t)] = k # [Suc k..<Suc (totalStages t)]"
    by (simp add: upt_conv_Cons)
  have c: "\<forall>m\<in>set (matches t). Match.stage m = k \<longrightarrow> Match.status m = Completed"
    using Suc.prems(2) lt by auto
  have ne: "k \<noteq> totalStages t" using lt by simp
  have "stageLoop now t [Suc k..<Suc (totalStages t)] (Suc k) =
           Inr (t\<lparr>Tournament.status := TournamentCompleted, Tournament.completedAt := Some now,
                  Tournament.updatedAt := now\<rparr>,
                Suc (totalStages t), True,
                (if truthy (winnerId f) then map_option Team.name (findTeam t (winnerId f)) else None),
                (if truthy (winnerId f)
                 then map_option Team.name
                        (findTeam t (if homeTeamId f = winnerId f then awayTeamId f else homeTeamId f))
                 else None))"
    using Suc.hyps(2) Suc.prems lt by (intro Suc.hyps(1)) auto
  then show ?case
    unfolding l using stageLoop_next [OF c ne] by simp
qed

lemma stages_cover:
  assumes "set (map Match.stage ms) = {1..T}"
  shows "sort (remdups (map Match.stage ms)) = [1..<Suc T]"
proof -
  have "sort (remdups (map Match.stage ms)) = sorted_list_of_set (set (map Match.stage ms))"
    by (rule sorted_list_of_set_sort_remdups [symmetric])
  also have "\<dots> = sorted_list_of_set {1..<Suc T}"
    using assms by (simp add: atLeastLessThanSuc_atLeastAtMost)
  finally show ?thesis by simp
qed

lemma stageLoop_frame:
  assumes "matches t1 = matches t2" "teams t1 = teams t2" "totalStages t1 = totalStages t2"
  shows "map_sum (\<lambda>e. e) snd (stageLoop now1 t1 ss cur) = map_sum (\<lambda>e. e) snd (stageLoop now2 t2 ss cur)"
  using assms
proof (induction ss arbitrary: cur)
  case Nil
  then show ?case by simp
next
  case (Cons s ss)
  then show ?case
    by (simp add: Let_def findTeam_def split: list.splits)
qed

lemma checkTournamentProgress_again:
  assumes "checkTournamentProgress now t = Inr (t', r)"
  shows "\<exists>t''. checkTournamentProgress now2 t' = Inr (t'', r)"
proof -
  from checkTournamentProgress_fields [OF assms]
  have eq: "matches t' = matches t" "teams t' = teams t" "totalStages t' = totalStages t"
    by simp_all
  let ?ss = "sort (remdups (map Match.stage (matches t)))"
  from stageLoop_frame [OF eq, of now2 ?ss 1 now]
  have fr: "map_sum (\<lambda>e. e) snd (stageLoop now2 t' ?ss 1) = map_sum (\<lambda>e. e) snd (stageLoop now t ?ss 1)" .
  from assms obtain t1 cur c ch ru where
    l1: "stageLoop now t ?ss 1 = Inr (t1, cur, c, ch, ru)"
    and r: "r = \<lparr>isCompleted = c, currentRound = min cur (totalStages t),
                 totalRounds = totalStages t, champion = ch, runnerUp = ru\<rparr>"
    unfolding checkTournamentProgress_def Let_def
    by (auto split: sum.splits prod.splits)
  from fr l1 obtain t1' where "stageLoop now2 t' ?ss 1 = Inr (t1', cur, c, ch, ru)"
    by (cases "stageLoop now2 t' ?ss 1") auto
  then show ?thesis
    unfolding checkTournamentProgress_def Let_def eq r by simp
qed

text \<open>
  C2. For a tournament whose matches cover the stages 1 to totalStages (\<open>f\<close> names the
  first match of the final stage, which then exists), checkTournamentProgress returns,
  and isCompleted holds exactly when every match is completed. In that case the status
  of the tournament becomes completed, and, the final having a winner, champion is the
  name of the team with the winner's id and runnerUp the name of the team in the final's
  other slot. In every case currentStage is set to the minimum of the first incomplete
  stage and totalStages (totalStages itself when no stage is incomplete), and a repeated
  call on the resulting tournament returns the same values.
\<close>

theorem checkTournamentProgress_spec:
  assumes cover: "set (map Match.stage (matches t)) = {1..totalStages t}"
    and fin: "filter (\<lambda>m. Match.stage m = totalStages t) (matches t) = f # fs"
  shows "\<exists>t' r. checkTournamentProgress now t = Inr (t', r)
     \<and> (isCompleted r \<longleftrightarrow> (\<forall>m\<in>set (matches t). Match.status m = Completed))
     \<and> (isCompleted r \<longrightarrow>
           Tournament.status t' = TournamentCompleted
           \<and> Tournament.completedAt t' = Some now
           \<and> currentStage t' = totalStages t
           \<and> (truthy (winnerId f) \<longrightarrow>
                champion r = map_option Team.name (findTeam t (winnerId f))
                \<and> runnerUp r = map_option Team.name
                     (findTeam t (if homeTeamId f = winnerId f then awayTeamId f
                                  else homeTeamId f))))
     \<and> (\<not> isCompleted r \<longrightarrow>
           Tournament.status t' = Tournament.status t \<and> champion r = None \<and> runnerUp r = None)
     \<and> (\<forall>s. (\<exists>m\<in>set (matches t). Match.stage m = s \<and> Match.status m \<noteq> Completed)
             \<and> (\<forall>m\<in>set (matches t). Match.stage m < s \<longrightarrow> Match.status m = Completed)
             \<longrightarrow> currentStage t' = min s (totalStages t))
     \<and> currentRound r = currentStage t' \<and> totalRounds r = totalStages t
     \<and> matches t' = matches t \<and> teams t' = teams t
     \<and> (\<forall>now2. \<exists>t''. checkTournamentProgress now2 t' = Inr (t'', r))"
proof -
  let ?T = "totalStages t"
  have "f \<in> set (filter (\<lambda>m. Match.stage m = totalStages t) (matches t))"
    unfolding fin by simp
  then have "?T \<in> set (map Match.stage (matches t))" by force
  then have pos: "1 \<le> ?T" unfolding cover by simp
  have stages: "sort (remdups (map Match.stage (matches t))) = [1..<Suc ?T]"
    using cover by (rule stages_cover)
  have range: "\<forall>m\<in>set (matches t). 1 \<le> Match.stage m \<and> Match.stage m \<le> ?T"
    using cover by auto
  show ?thesis
  proof (cases "\<forall>m\<in>set (matches t). Match.status m = Completed")
    case True
    let ?t1 = "t\<lparr>Tournament.status := TournamentCompleted, Tournament.completedAt := Some now,
                  Tournament.updatedAt := now\<rparr>"
    let ?ch = "if truthy (winnerId f) then map_option Team.name (findTeam t (winnerId f)) else None"
    let ?ru = "if truthy (winnerId f)
                 then map_option Team.name
                        (findTeam t (if homeTeamId f = winnerId f then awayTeamId f else homeTeamId f))
                 else None"
    let ?t' = "?t1\<lparr>currentStage := min (Suc ?T) ?T\<rparr>"
    let ?r = "\<lparr>isCompleted = True, currentRound = currentStage ?t', totalRounds = ?T,
               champion = ?ch, runnerUp = ?ru\<rparr>"
    have loop: "stageLoop now t [1..<Suc ?T] 1 = Inr (?t1, Suc ?T, True, ?ch, ?ru)"
      using True by (intro stageLoop_complete [OF pos _ fin]) simp
    have res: "checkTournamentProgress now t = Inr (?t', ?r)"
      unfolding checkTournamentProgress_def Let_def stages loop by simp
    have again: "\<forall>now2. \<exists>t''. checkTournamentProgress now2 ?t' = Inr (t'', ?r)"
      using checkTournamentProgress_again [OF res] by blast
    have nos: "\<not> (\<exists>m\<in>set (matches t). Match.stage m = s \<and> Match.status m \<noteq> Completed)" for s
      using True by auto
    show ?thesis
      apply (rule exI [of _ ?t'], rule exI [of _ ?r])
      apply (intro conjI)
               apply (rule res)
              apply (simp add: True)
             apply simp
            apply simp
           apply (simp add: nos)
          apply simp
         apply simp
        apply simp
       apply simp
      apply (rule again)
      done
  next
    case False
    then have ex: "\<exists>s. \<exists>m\<in>set (matches t). Match.stage m = s \<and> Match.status m \<noteq> Completed"
      by auto
    define s0 where "s0 = (LEAST s. \<exists>m\<in>set (matches t). Match.stage m = s \<and> Match.status m \<noteq> Completed)"
    have s0: "\<exists>m\<in>set (matches t). Match.stage m = s0 \<and> Match.status m \<noteq> Completed"
      unfolding s0_def using ex by (rule LeastI_ex)
    have least: "\<forall>m\<in>set (matches t). Match.stage m < s0 \<longrightarrow> Match.status m = Completed"
    proof (intro ballI impI, rule ccontr)
      fix m assume m: "m \<in> set (matches t)" "Match.stage m < s0" "Match.status m \<noteq> Completed"
      then have "s0 \<le> Match.stage m"
        unfolding s0_def by (intro Least_le) auto
      with m(2) show False by simp
    qed
    have s0r: "1 \<le> s0" "s0 \<le> ?T" using s0 range by auto
    let ?t' = "t\<lparr>currentStage := min s0 ?T\<rparr>"
    let ?r = "\<lparr>isCompleted = False, currentRound = currentStage ?t', totalRounds = ?T,
               champion = None, runnerUp = None\<rparr>"
    have loop: "stageLoop now t [1..<Suc ?T] 1 = Inr (t, s0, False, None, None)"
      using s0r s0 least by (intro stageLoop_incomplete) auto
    have res: "checkTournamentProgress now t = Inr (?t', ?r)"
      unfolding checkTournamentProgress_def Let_def stages loop by simp
    have again: "\<forall>now2. \<exists>t''. checkTournamentProgress now2 ?t' = Inr (t'', ?r)"
      using checkTournamentProgress_again [OF res] by blast
    have uniq: "s = s0"
      if "\<exists>m\<in>set (matches t). Match.stage m = s \<and> Match.status m \<noteq> Completed"
        and "\<forall>m\<in>set (matches t). Match.stage m < s \<longrightarrow> Match.status m = Completed" for s
    proof (rule ccontr)
      assume "s \<noteq> s0"
      then consider "s < s0" | "s0 < s" by linarith
      then show False
      proof cases
        case 1
        with that(1) least show False by auto
      next
        case 2
        with that(2) s0 show False by auto
      qed
    qed
    have cur: "\<forall>s. (\<exists>m\<in>set (matches t). Match.stage m = s \<and> Match.status m \<noteq> Completed)
             \<and> (\<forall>m\<in>set (matches t). Match.stage m < s \<longrightarrow> Match.status m = Completed)
             \<longrightarrow> currentStage ?t' = min s ?T"
      using uniq by auto
    show ?thesis
      apply (rule exI [of _ ?t'], rule exI [of _ ?r])
      apply (intro conjI)
               apply (rule res)
              apply (simp add: False)
             apply simp
            apply simp
           apply (rule cur)
          apply simp
         apply simp
        apply simp
       apply simp
      apply (rule again)
      done
  qed
qed

theorem checkTournamentProgress_spec_witness:
  "\<exists>t' r. checkTournamentProgress 5 exampleDoneT = Inr (t', r) \<and> isCompleted r
     \<and> champion r = Some ''A'' \<and> runnerUp r = Some ''D''
     \<and> Tournament.status t' = TournamentCompleted \<and> currentStage t' = 2"
proof -
  have cover: "set (map Match.stage (matches exampleDoneT)) = {1..totalStages exampleDoneT}"
    by (auto simp: example_defs)
  have fin: "filter (\<lambda>m. Match.stage m = totalStages exampleDoneT) (matches exampleDoneT)
      = (matches exampleDoneT ! 2) # []"
    by (simp add: example_defs)
  have all: "\<forall>m\<in>set (matches exampleDoneT). Match.status m = Completed"
    by (simp add: example_defs)
  have w: "truthy (winnerId (matches exampleDoneT ! 2))"
    "map_option Team.name (findTeam exampleDoneT (winnerId (matches exampleDoneT ! 2))) = Some ''A''"
    "map_option Team.name (findTeam exampleDoneT
        (if homeTeamId (matches exampleDoneT ! 2) = winnerId (matches exampleDoneT ! 2)
         then awayTeamId (matches exampleDoneT ! 2) else homeTeamId (matches exampleDoneT ! 2)))
      = Some ''D''"
    "totalStages exampleDoneT = 2"
    by (simp_all add: example_defs findTeam_def)
  from checkTournamentProgress_spec [OF cover fin, of 5] obtain t' r where
    "checkTournamentProgress 5 exampleDoneT = Inr (t', r)"
    "isCompleted r \<longleftrightarrow> (\<forall>m\<in>set (matches exampleDoneT). Match.status m = Completed)"
    "isCompleted r \<longrightarrow>
           Tournament.status t' = TournamentCompleted
           \<and> Tournament.completedAt t' = Some 5
           \<and> currentStage t' = totalStages exampleDoneT
           \<and> (truthy (winnerId (matches exampleDoneT ! 2)) \<longrightarrow>
                champion r = map_option Team.name
                  (findTeam exampleDoneT (winnerId (matches exampleDoneT ! 2)))
                \<and> runnerUp r = map_option Team.name
                     (findTeam exampleDoneT
                        (if homeTeamId (matches exampleDoneT ! 2) = winnerId (matches exampleDoneT ! 2)
                         then awayTeamId (matches exampleDoneT ! 2)
                         else homeTeamId (matches exampleDoneT ! 2))))"
    by blast
  then show ?thesis using all w by auto
qed

section \<open>Properties of bracket generation\<close>

subsection \<open>Decimal strings and keys\<close>


lemma of_char_digit:
  assumes "d < 10"
  shows "of_char (digit d) = (48 + d :: nat)"
proof -
  from assms have "d = 0 \<or> d = 1 \<or> d = 2 \<or> d = 3 \<or> d = 4 \<or> d = 5 \<or> d = 6 \<or> d = 7
      \<or> d = 8 \<or> d = 9"
    by arith
  then show ?thesis unfolding digit_def by (elim disjE) simp_all
qed

lemma decimal_toString:
  "foldl (\<lambda>acc c. 10 * acc + (of_char c - 48)) (0::nat) (toString n) = n"
proof (induction n rule: toString.induct)
  case (1 n)
  show ?case
  proof (cases "n < 10")
    case True
    then show ?thesis by (subst toString.simps) (simp add: of_char_digit)
  next
    case False
    with 1 show ?thesis
      by (subst toString.simps) (simp add: of_char_digit)
  qed
qed

lemma toString_inj:
  assumes "toString a = toString b"
  shows "a = b"
proof -
  have "foldl (\<lambda>acc c. 10 * acc + (of_char c - 48)) (0::nat) (toString a)
      = foldl (\<lambda>acc c. 10 * acc + (of_char c - 48)) 0 (toString b)"
    using assms by simp
  then show ?thesis by (simp only: decimal_toString)
qed

lemma toString_digits: "c \<in> set (toString n) \<Longrightarrow> 48 \<le> (of_char c :: nat)"
proof (induction n rule: toString.induct)
  case (1 n)
  show ?case
  proof (cases "n < 10")
    case True
    with "1.prems" show ?thesis
      by (subst (asm) toString.simps) (simp add: of_char_digit)
  next
    case False
    with "1.prems" have "c \<in> set (toString (n div 10)) \<or> c = digit (n mod 10)"
      by (subst (asm) toString.simps) auto
    with 1 False show ?thesis by (auto simp: of_char_digit)
  qed
qed

lemma dash_notin_toString: "CHR ''-'' \<notin> set (toString n)"
proof
  assume "CHR ''-'' \<in> set (toString n)"
  from toString_digits [OF this] show False by simp
qed

lemma matchKey_inj: "matchKey r p = matchKey r' p' \<longleftrightarrow> r = r' \<and> p = p'"
proof
  assume "matchKey r p = matchKey r' p'"
  then have "toString r @ CHR ''-'' # toString p = toString r' @ CHR ''-'' # toString p'"
    by (simp add: matchKey_def)
  then have "toString r = toString r' \<and> toString p = toString p'"
    by (simp add: append_Cons_eq_iff dash_notin_toString)
  then show "r = r' \<and> p = p'" by (auto dest: toString_inj)
qed simp

lemma matchKey_nonempty [simp]: "matchKey r p \<noteq> []"
  by (simp add: matchKey_def)

lemma log2_power [simp]: "log2 (2 ^ k) = k"
proof (induction k)
  case 0
  show ?case by (subst log2.simps) simp
next
  case (Suc k)
  have "\<not> (2::nat) ^ Suc k < 2" by simp
  then show ?case using Suc by (subst log2.simps) simp
qed

subsection \<open>Loops\<close>

lemma forEachM_append:
  "forEachM f (xs @ ys) s = (case forEachM f xs s of Inl e \<Rightarrow> Inl e | Inr s' \<Rightarrow> forEachM f ys s')"
  by (induction xs arbitrary: s) (auto split: sum.splits)

lemma forEachM_map: "forEachM f (map g xs) s = forEachM (\<lambda>s x. f s (g x)) xs s"
  by (induction xs arbitrary: s) (auto split: sum.splits)

lemma forEachM_cong:
  "(\<And>x s. x \<in> set xs \<Longrightarrow> f s x = g s x) \<Longrightarrow> forEachM f xs s = forEachM g xs s"
  by (induction xs arbitrary: s) (auto split: sum.splits)

lemma forEachM_nested:
  "forEachM (\<lambda>st r. forEachM (f r) (h r) st) rs st =
     forEachM (\<lambda>st rp. f (fst rp) st (snd rp)) (concat (map (\<lambda>r. map (Pair r) (h r)) rs)) st"
proof (induction rs arbitrary: st)
  case Nil
  show ?case by simp
next
  case (Cons r rs)
  show ?case
    by (simp add: forEachM_append forEachM_map Cons.IH split: sum.splits)
qed

lemma forEachM_invariant:
  assumes "forEachM f xs s = Inr s'" and "I s"
    and "\<And>s x s'. I s \<Longrightarrow> x \<in> set xs \<Longrightarrow> f s x = Inr s' \<Longrightarrow> I s'"
  shows "I s'"
  using assms
proof (induction xs arbitrary: s)
  case Nil
  then show ?case by simp
next
  case (Cons x xs)
  from Cons.prems(1) obtain s1 where s1: "f s x = Inr s1" "forEachM f xs s1 = Inr s'"
    by (auto split: sum.splits)
  have "I s1" using Cons.prems(3) [OF Cons.prems(2) _ s1(1)] by simp
  with s1(2) show ?case
    by (rule Cons.IH) (use Cons.prems(3) in auto)
qed

subsection \<open>One iteration\<close>

lemma bracketStep_ok:
  assumes "teamList = t0 # ts"
    and "r = 1 \<longrightarrow> 1 \<le> p \<and> 2 * p \<le> length shuffledTeams"
  shows "bracketStep gen teamList shuffledTeams T r (ms, idm) p =
           Inr (ms @ [slotMatch gen (Team.tournamentId t0) shuffledTeams T (length ms) (r, p)],
                idm(matchKey r p \<mapsto> generateMatchId (gen (length ms))))"
proof (cases "r = 1")
  case True
  with assms(2) have "(p - 1) * 2 < length shuffledTeams" "(p - 1) * 2 + 1 < length shuffledTeams"
    by auto
  then show ?thesis
    using True assms(1)
    by (simp add: bracketStep_def elementAt_def assignTeams_def slotMatch_def Let_def
        linkNext_def newMatch_def)
next
  case False
  then show ?thesis
    using assms(1)
    by (simp add: bracketStep_def elementAt_def slotMatch_def Let_def linkNext_def newMatch_def)
qed

lemma bracket_loop:
  assumes "teamList = t0 # ts"
    and "\<forall>rp\<in>set xs. fst rp = 1 \<longrightarrow> 1 \<le> snd rp \<and> 2 * snd rp \<le> length shuffledTeams"
  shows "\<exists>idm'. forEachM (\<lambda>st rp. bracketStep gen teamList shuffledTeams T (fst rp) st (snd rp))
                   xs (ms, idm)
           = Inr (ms @ map (\<lambda>(k, rp). slotMatch gen (Team.tournamentId t0) shuffledTeams T k rp)
                        (zip [length ms..<length ms + length xs] xs), idm')
         \<and> (\<forall>s. s \<notin> (\<lambda>rp. matchKey (fst rp) (snd rp)) ` set xs \<longrightarrow> idm' s = idm s)
         \<and> (distinct xs \<longrightarrow>
              (\<forall>k<length xs. idm' (matchKey (fst (xs ! k)) (snd (xs ! k)))
                  = Some (generateMatchId (gen (length ms + k)))))"
  using assms(2)
proof (induction xs arbitrary: ms idm)
  case Nil
  show ?case by simp
next
  case (Cons x xs)
  obtain r p where x: "x = (r, p)" by (cases x)
  let ?m = "slotMatch gen (Team.tournamentId t0) shuffledTeams T (length ms) (r, p)"
  let ?idm1 = "idm(matchKey r p \<mapsto> generateMatchId (gen (length ms)))"
  have step: "bracketStep gen teamList shuffledTeams T r (ms, idm) p = Inr (ms @ [?m], ?idm1)"
    using Cons.prems x by (intro bracketStep_ok [OF assms(1)]) simp
  have "\<forall>rp\<in>set xs. fst rp = 1 \<longrightarrow> 1 \<le> snd rp \<and> 2 * snd rp \<le> length shuffledTeams"
    using Cons.prems by simp
  from Cons.IH [OF this, of "ms @ [?m]" ?idm1] obtain idm' where
    run: "forEachM (\<lambda>st rp. bracketStep gen teamList shuffledTeams T (fst rp) st (snd rp))
            xs (ms @ [?m], ?idm1)
          = Inr ((ms @ [?m]) @ map (\<lambda>(k, rp). slotMatch gen (Team.tournamentId t0) shuffledTeams T k rp)
                        (zip [length (ms @ [?m])..<length (ms @ [?m]) + length xs] xs), idm')"
    and keep: "\<forall>s. s \<notin> (\<lambda>rp. matchKey (fst rp) (snd rp)) ` set xs \<longrightarrow> idm' s = ?idm1 s"
    and look: "distinct xs \<longrightarrow>
              (\<forall>k<length xs. idm' (matchKey (fst (xs ! k)) (snd (xs ! k)))
                  = Some (generateMatchId (gen (length (ms @ [?m]) + k))))"
    by blast
  have upt: "[length ms..<length ms + length (x # xs)]
      = length ms # [Suc (length ms)..<Suc (length ms) + length xs]"
    by (subst upt_rec) simp
  have res: "forEachM (\<lambda>st rp. bracketStep gen teamList shuffledTeams T (fst rp) st (snd rp))
                   (x # xs) (ms, idm)
           = Inr (ms @ map (\<lambda>(k, rp). slotMatch gen (Team.tournamentId t0) shuffledTeams T k rp)
                        (zip [length ms..<length ms + length (x # xs)] (x # xs)), idm')"
    unfolding upt using step run x by simp
  have keep': "\<forall>s. s \<notin> (\<lambda>rp. matchKey (fst rp) (snd rp)) ` set (x # xs) \<longrightarrow> idm' s = idm s"
    using keep x by auto
  have look': "\<forall>k<length (x # xs). idm' (matchKey (fst ((x # xs) ! k)) (snd ((x # xs) ! k)))
                  = Some (generateMatchId (gen (length ms + k)))" if d: "distinct (x # xs)"
  proof (intro allI impI)
    fix k assume k: "k < length (x # xs)"
    show "idm' (matchKey (fst ((x # xs) ! k)) (snd ((x # xs) ! k)))
                  = Some (generateMatchId (gen (length ms + k)))"
    proof (cases k)
      case 0
      have "matchKey r p \<notin> (\<lambda>rp. matchKey (fst rp) (snd rp)) ` set xs"
        using d x by (auto simp: matchKey_inj)
      with keep have "idm' (matchKey r p) = ?idm1 (matchKey r p)" by blast
      then show ?thesis using 0 x by simp
    next
      case (Suc k')
      with k d look show ?thesis by simp
    qed
  qed
  from res keep' look' show ?case by blast
qed

subsection \<open>The order of the iterations\<close>

lemma set_bracketSlots:
  "set (bracketSlots T) = {(r, p). 1 \<le> r \<and> r \<le> T \<and> 1 \<le> p \<and> p \<le> 2 ^ (T - r)}"
proof -
  have "(r, p) \<in> set (bracketSlots T) \<longleftrightarrow> 1 \<le> r \<and> r \<le> T \<and> 1 \<le> p \<and> p \<le> 2 ^ (T - r)"
    for r p
  proof
    assume "(r, p) \<in> set (bracketSlots T)"
    then show "1 \<le> r \<and> r \<le> T \<and> 1 \<le> p \<and> p \<le> 2 ^ (T - r)"
      by (auto simp: bracketSlots_def simp del: upt_Suc)
  next
    assume a: "1 \<le> r \<and> r \<le> T \<and> 1 \<le> p \<and> p \<le> 2 ^ (T - r)"
    then have "r \<in> {Suc 0..<Suc T}" "p \<in> {Suc 0..<Suc (2 ^ (T - r))}" by auto
    then have "\<exists>x\<in>{Suc 0..<Suc T}. (r, p) \<in> Pair x ` {Suc 0..<Suc (2 ^ (T - x))}"
      by blast
    then show "(r, p) \<in> set (bracketSlots T)"
      by (simp add: bracketSlots_def del: upt_Suc)
  qed
  then show ?thesis by auto
qed

lemma distinct_grouped:
  "distinct rs \<Longrightarrow> distinct (concat (map (\<lambda>r. map (Pair r) [1..<Suc (h r)]) rs))"
proof (induction rs)
  case Nil
  show ?case by simp
next
  case (Cons r rs)
  have "distinct (map (Pair r) [1..<Suc (h r)])"
    by (simp add: distinct_map inj_on_def del: upt_Suc)
  with Cons show ?case by (auto simp del: upt_Suc)
qed

lemma distinct_bracketSlots: "distinct (bracketSlots T)"
  unfolding bracketSlots_def by (rule distinct_grouped) simp

lemma filter_grouped:
  "distinct rs \<Longrightarrow>
     filter (\<lambda>rp. fst rp = r0) (concat (map (\<lambda>r. map (Pair r) (h r)) rs))
       = (if r0 \<in> set rs then map (Pair r0) (h r0) else [])"
proof (induction rs)
  case Nil
  show ?case by simp
next
  case (Cons r rs)
  have a: "filter (\<lambda>rp. fst rp = r0) (map (Pair r) (h r)) = (if r = r0 then map (Pair r) (h r) else [])"
    by (simp add: filter_map comp_def)
  from Cons show ?case by (auto simp: a)
qed

lemma filter_bracketSlots:
  "1 \<le> r \<Longrightarrow> r \<le> T \<Longrightarrow>
     filter (\<lambda>rp. fst rp = r) (bracketSlots T) = map (Pair r) [1..<Suc (2 ^ (T - r))]"
  unfolding bracketSlots_def by (subst filter_grouped) simp_all

lemma sum_halves: "(\<Sum>r\<leftarrow>[1..<Suc T]. (2::nat) ^ (T - r)) + 1 = 2 ^ T"
proof (induction T)
  case 0
  show ?case by simp
next
  case (Suc T)
  have "[1..<Suc (Suc T)] = 1 # map Suc [1..<Suc T]"
    by (simp add: map_Suc_upt upt_conv_Cons del: upt_Suc)
  then have "(\<Sum>r\<leftarrow>[1..<Suc (Suc T)]. (2::nat) ^ (Suc T - r))
      = 2 ^ T + (\<Sum>r\<leftarrow>[1..<Suc T]. 2 ^ (T - r))"
    by (simp add: comp_def del: upt_Suc)
  with Suc show ?case by simp
qed

lemma length_bracketSlots: "length (bracketSlots T) = 2 ^ T - 1"
proof -
  have "length (bracketSlots T) = (\<Sum>r\<leftarrow>[1..<Suc T]. (2::nat) ^ (T - r))"
    by (simp add: bracketSlots_def length_concat comp_def del: upt_Suc)
  with sum_halves [of T] show ?thesis by simp
qed

lemma next_slot:
  assumes "(r, p) \<in> set (bracketSlots T)" "r < T"
  shows "(r + 1, (p + 1) div 2) \<in> set (bracketSlots T)"
proof -
  from assms have p: "1 \<le> p" "p \<le> 2 ^ (T - r)" and r: "1 \<le> r"
    by (auto simp: set_bracketSlots)
  have "T - r = Suc (T - (r + 1))" using assms(2) by simp
  then have "(2::nat) ^ (T - r) = 2 * 2 ^ (T - (r + 1))" by simp
  with p have "(p + 1) div 2 \<le> 2 ^ (T - (r + 1))" "1 \<le> (p + 1) div 2" by auto
  with r assms(2) show ?thesis by (simp add: set_bracketSlots)
qed

lemma first_round_slot:
  assumes "(1, p) \<in> set (bracketSlots T)"
  shows "1 \<le> p \<and> 2 * p \<le> 2 ^ T"
proof -
  from assms have p: "1 \<le> p" "p \<le> 2 ^ (T - 1)" "1 \<le> T"
    by (auto simp: set_bracketSlots)
  have "T = Suc (T - 1)" using p(3) by simp
  then have "(2::nat) ^ T = 2 * 2 ^ (T - 1)" by (metis power_Suc)
  with p show ?thesis by simp
qed

subsection \<open>The generated matches\<close>

lemma resolveLink_simps [simp]:
  "Match.id (resolveLink idm m) = Match.id m"
  "Match.stage (resolveLink idm m) = Match.stage m"
  "stagePosition (resolveLink idm m) = stagePosition m"
  "homeTeamId (resolveLink idm m) = homeTeamId m"
  "awayTeamId (resolveLink idm m) = awayTeamId m"
  "winnerId (resolveLink idm m) = winnerId m"
  "homeRounds (resolveLink idm m) = homeRounds m"
  "awayRounds (resolveLink idm m) = awayRounds m"
  "Match.status (resolveLink idm m) = Match.status m"
  by (simp_all add: resolveLink_def)

lemma nextMatchId_resolveLink:
  "nextMatchId (resolveLink idm m) =
     (if truthy (nextMatchId m) then idm (the (nextMatchId m)) else nextMatchId m)"
  by (simp add: resolveLink_def)

lemma slotMatch_simps [simp]:
  "Match.id (slotMatch gen tid sh T k rp) = generateMatchId (gen k)"
  "Match.stage (slotMatch gen tid sh T k rp) = fst rp"
  "stagePosition (slotMatch gen tid sh T k rp) = snd rp"
  "winnerId (slotMatch gen tid sh T k rp) = None"
  "homeRounds (slotMatch gen tid sh T k rp) = None"
  "awayRounds (slotMatch gen tid sh T k rp) = None"
  "homeTeamId (slotMatch gen tid sh T k rp) =
     (if fst rp = 1 then Some (Team.id (sh ! ((snd rp - 1) * 2))) else None)"
  "awayTeamId (slotMatch gen tid sh T k rp) =
     (if fst rp = 1 then Some (Team.id (sh ! ((snd rp - 1) * 2 + 1))) else None)"
  "Match.status (slotMatch gen tid sh T k rp) = (if fst rp = 1 then Ready else Pending)"
  "nextMatchId (slotMatch gen tid sh T k rp) =
     (if fst rp < T then Some (matchKey (fst rp + 1) ((snd rp + 1) div 2)) else None)"
  by (simp_all add: slotMatch_def linkNext_def newMatch_def Let_def)

lemma generateBracket_run:
  assumes n: "length teamList = 2 ^ T" and sh: "length shuffledTeams = length teamList"
  shows "\<exists>idm. generateBracket gen shuffledTeams teamList =
            Inr (map (resolveLink idm)
                   (map (\<lambda>(k, rp). slotMatch gen (Team.tournamentId (hd teamList)) shuffledTeams T k rp)
                      (zip [0..<length (bracketSlots T)] (bracketSlots T))))
         \<and> (\<forall>k<length (bracketSlots T).
               idm (matchKey (fst (bracketSlots T ! k)) (snd (bracketSlots T ! k)))
                 = Some (generateMatchId (gen k)))"
proof -
  from n have "teamList \<noteq> []" by auto
  then obtain t0 ts where tl: "teamList = t0 # ts" by (cases teamList) auto
  have per: "(map (\<lambda>roundNumber. 2 ^ (T - roundNumber)) [1..<Suc T]) ! (r - 1) = (2::nat) ^ (T - r)"
    if "r \<in> set [1..<Suc T]" for r
  proof -
    from that have "r - 1 < length [1..<Suc T]" "[1..<Suc T] ! (r - 1) = r"
      by (auto simp del: upt_Suc)
    then show ?thesis by (simp only: nth_map)
  qed
  let ?step = "bracketStep gen teamList shuffledTeams T"
  have "forEachM (\<lambda>st r. forEachM (?step r)
            [1..<Suc (map (\<lambda>roundNumber. 2 ^ (T - roundNumber)) [1..<Suc T] ! (r - 1))] st)
          [1..<Suc T] ([], Map.empty)
      = forEachM (\<lambda>st r. forEachM (?step r) [1..<Suc (2 ^ (T - r))] st) [1..<Suc T] ([], Map.empty)"
    by (rule forEachM_cong) (simp only: per)
  also have "\<dots> = forEachM (\<lambda>st rp. ?step (fst rp) st (snd rp)) (bracketSlots T) ([], Map.empty)"
    unfolding bracketSlots_def by (rule forEachM_nested)
  finally have loops: "forEachM (\<lambda>st r. forEachM (?step r)
            [1..<Suc (map (\<lambda>roundNumber. 2 ^ (T - roundNumber)) [1..<Suc T] ! (r - 1))] st)
          [1..<Suc T] ([], Map.empty)
      = forEachM (\<lambda>st rp. ?step (fst rp) st (snd rp)) (bracketSlots T) ([], Map.empty)" .
  have safe: "\<forall>rp\<in>set (bracketSlots T). fst rp = 1 \<longrightarrow> 1 \<le> snd rp \<and> 2 * snd rp \<le> length shuffledTeams"
  proof (intro ballI impI)
    fix rp assume "rp \<in> set (bracketSlots T)" "fst rp = 1"
    then have "(1, snd rp) \<in> set (bracketSlots T)" by (metis prod.collapse)
    from first_round_slot [OF this] show "1 \<le> snd rp \<and> 2 * snd rp \<le> length shuffledTeams"
      using n sh by simp
  qed
  from bracket_loop [OF tl safe, of gen T "[]" Map.empty] obtain idm where
    run: "forEachM (\<lambda>st rp. ?step (fst rp) st (snd rp)) (bracketSlots T) ([], Map.empty)
           = Inr (map (\<lambda>(k, rp). slotMatch gen (Team.tournamentId t0) shuffledTeams T k rp)
                        (zip [0..<length (bracketSlots T)] (bracketSlots T)), idm)"
    and look: "\<forall>k<length (bracketSlots T).
               idm (matchKey (fst (bracketSlots T ! k)) (snd (bracketSlots T ! k)))
                 = Some (generateMatchId (gen k))"
    using distinct_bracketSlots [of T] by auto
  have "generateBracket gen shuffledTeams teamList =
            Inr (map (resolveLink idm)
                   (map (\<lambda>(k, rp). slotMatch gen (Team.tournamentId (hd teamList)) shuffledTeams T k rp)
                      (zip [0..<length (bracketSlots T)] (bracketSlots T))))"
    unfolding generateBracket_def Let_def n log2_power loops run
    by (simp add: tl)
  with look show ?thesis by blast
qed

lemma generateBracket_char:
  assumes n: "length teamList = 2 ^ T" and sh: "length shuffledTeams = length teamList"
  shows "\<exists>ms. generateBracket gen shuffledTeams teamList = Inr ms
     \<and> length ms = length (bracketSlots T)
     \<and> (\<forall>k<length ms.
          Match.id (ms ! k) = generateMatchId (gen k)
          \<and> (Match.stage (ms ! k), stagePosition (ms ! k)) = bracketSlots T ! k
          \<and> winnerId (ms ! k) = None \<and> homeRounds (ms ! k) = None \<and> awayRounds (ms ! k) = None
          \<and> homeTeamId (ms ! k) =
              (if Match.stage (ms ! k) = 1
               then Some (Team.id (shuffledTeams ! ((stagePosition (ms ! k) - 1) * 2))) else None)
          \<and> awayTeamId (ms ! k) =
              (if Match.stage (ms ! k) = 1
               then Some (Team.id (shuffledTeams ! ((stagePosition (ms ! k) - 1) * 2 + 1))) else None)
          \<and> Match.status (ms ! k) = (if Match.stage (ms ! k) = 1 then Ready else Pending)
          \<and> (Match.stage (ms ! k) < T \<longrightarrow>
                (\<exists>k'<length ms.
                    bracketSlots T ! k' = (Match.stage (ms ! k) + 1, (stagePosition (ms ! k) + 1) div 2)
                    \<and> nextMatchId (ms ! k) = Some (Match.id (ms ! k'))))
          \<and> (\<not> Match.stage (ms ! k) < T \<longrightarrow> nextMatchId (ms ! k) = None))"
proof -
  let ?S = "bracketSlots T"
  let ?tid = "Team.tournamentId (hd teamList)"
  from generateBracket_run [OF n sh, of gen] obtain idm where
    run: "generateBracket gen shuffledTeams teamList =
            Inr (map (resolveLink idm)
                   (map (\<lambda>(k, rp). slotMatch gen ?tid shuffledTeams T k rp)
                      (zip [0..<length ?S] ?S)))"
    and look: "\<forall>k<length ?S. idm (matchKey (fst (?S ! k)) (snd (?S ! k)))
                 = Some (generateMatchId (gen k))"
    by blast
  let ?ms = "map (resolveLink idm) (map (\<lambda>(k, rp). slotMatch gen ?tid shuffledTeams T k rp)
                      (zip [0..<length ?S] ?S))"
  have len: "length ?ms = length ?S" by simp
  have nth: "?ms ! k = resolveLink idm (slotMatch gen ?tid shuffledTeams T k (?S ! k))"
    if "k < length ?S" for k
    using that by simp
  have link: "\<exists>k'<length ?S. ?S ! k' = (fst (?S ! k) + 1, (snd (?S ! k) + 1) div 2)
      \<and> idm (matchKey (fst (?S ! k) + 1) ((snd (?S ! k) + 1) div 2)) = Some (generateMatchId (gen k'))"
    if k: "k < length ?S" and r: "fst (?S ! k) < T" for k
  proof -
    have "(fst (?S ! k), snd (?S ! k)) \<in> set ?S" using k by simp
    from next_slot [OF this r] obtain k' where
      k': "k' < length ?S" "?S ! k' = (fst (?S ! k) + 1, (snd (?S ! k) + 1) div 2)"
      by (auto simp: in_set_conv_nth)
    with look have "idm (matchKey (fst (?S ! k) + 1) ((snd (?S ! k) + 1) div 2))
        = Some (generateMatchId (gen k'))"
      by (metis fst_conv snd_conv)
    with k' show ?thesis by blast
  qed
  have each: "Match.id (?ms ! k) = generateMatchId (gen k)
          \<and> (Match.stage (?ms ! k), stagePosition (?ms ! k)) = ?S ! k
          \<and> winnerId (?ms ! k) = None \<and> homeRounds (?ms ! k) = None \<and> awayRounds (?ms ! k) = None
          \<and> homeTeamId (?ms ! k) =
              (if Match.stage (?ms ! k) = 1
               then Some (Team.id (shuffledTeams ! ((stagePosition (?ms ! k) - 1) * 2))) else None)
          \<and> awayTeamId (?ms ! k) =
              (if Match.stage (?ms ! k) = 1
               then Some (Team.id (shuffledTeams ! ((stagePosition (?ms ! k) - 1) * 2 + 1))) else None)
          \<and> Match.status (?ms ! k) = (if Match.stage (?ms ! k) = 1 then Ready else Pending)
          \<and> (Match.stage (?ms ! k) < T \<longrightarrow>
                (\<exists>k'<length ?ms.
                    ?S ! k' = (Match.stage (?ms ! k) + 1, (stagePosition (?ms ! k) + 1) div 2)
                    \<and> nextMatchId (?ms ! k) = Some (Match.id (?ms ! k'))))
          \<and> (\<not> Match.stage (?ms ! k) < T \<longrightarrow> nextMatchId (?ms ! k) = None)"
    if k: "k < length ?ms" for k
  proof -
    from k have kS: "k < length ?S" by simp
    note m = nth [OF kS]
    have a: "Match.stage (?ms ! k) < T \<longrightarrow>
                (\<exists>k'<length ?ms.
                    ?S ! k' = (Match.stage (?ms ! k) + 1, (stagePosition (?ms ! k) + 1) div 2)
                    \<and> nextMatchId (?ms ! k) = Some (Match.id (?ms ! k')))"
    proof
      assume "Match.stage (?ms ! k) < T"
      then have r: "fst (?S ! k) < T" unfolding m by simp
      from link [OF kS r] obtain k' where
        k': "k' < length ?S" "?S ! k' = (fst (?S ! k) + 1, (snd (?S ! k) + 1) div 2)"
        "idm (matchKey (fst (?S ! k) + 1) ((snd (?S ! k) + 1) div 2)) = Some (generateMatchId (gen k'))"
        by blast
      have "nextMatchId (?ms ! k) = Some (generateMatchId (gen k'))"
        unfolding m using r k'(3) by (simp add: nextMatchId_resolveLink)
      moreover have "Match.id (?ms ! k') = generateMatchId (gen k')"
        unfolding nth [OF k'(1)] by simp
      moreover have "?S ! k' = (Match.stage (?ms ! k) + 1, (stagePosition (?ms ! k) + 1) div 2)"
        unfolding m using k'(2) by simp
      ultimately show "\<exists>k'<length ?ms.
                    ?S ! k' = (Match.stage (?ms ! k) + 1, (stagePosition (?ms ! k) + 1) div 2)
                    \<and> nextMatchId (?ms ! k) = Some (Match.id (?ms ! k'))"
        using k'(1) len by metis
    qed
    have b: "\<not> Match.stage (?ms ! k) < T \<longrightarrow> nextMatchId (?ms ! k) = None"
      unfolding m by (simp add: nextMatchId_resolveLink)
    have c: "Match.id (?ms ! k) = generateMatchId (gen k)
          \<and> (Match.stage (?ms ! k), stagePosition (?ms ! k)) = ?S ! k
          \<and> winnerId (?ms ! k) = None \<and> homeRounds (?ms ! k) = None \<and> awayRounds (?ms ! k) = None
          \<and> homeTeamId (?ms ! k) =
              (if Match.stage (?ms ! k) = 1
               then Some (Team.id (shuffledTeams ! ((stagePosition (?ms ! k) - 1) * 2))) else None)
          \<and> awayTeamId (?ms ! k) =
              (if Match.stage (?ms ! k) = 1
               then Some (Team.id (shuffledTeams ! ((stagePosition (?ms ! k) - 1) * 2 + 1))) else None)
          \<and> Match.status (?ms ! k) = (if Match.stage (?ms ! k) = 1 then Ready else Pending)"
      unfolding m by simp
    from a b c show ?thesis by blast
  qed
  show ?thesis
    apply (rule exI [of _ ?ms])
    apply (intro conjI)
      apply (rule run)
     apply (rule len)
    apply (intro allI impI)
    apply (rule each)
    apply assumption
    done
qed

lemma pairs_concat:
  "length xs = 2 * n \<Longrightarrow>
     concat (map (\<lambda>p. [f (xs ! (2 * (p - 1))), f (xs ! (2 * (p - 1) + 1))]) [1..<Suc n]) = map f xs"
proof (induction n arbitrary: xs)
  case 0
  then show ?case by simp
next
  case (Suc n)
  then obtain a b ys where xs: "xs = a # b # ys" and ys: "length ys = 2 * n"
    by (cases xs; cases "tl xs") auto
  have l: "[1..<Suc (Suc n)] = 1 # map Suc [1..<Suc n]"
    by (simp add: map_Suc_upt upt_conv_Cons del: upt_Suc)
  have shift: "[f (xs ! (2 * (Suc p - 1))), f (xs ! (2 * (Suc p - 1) + 1))]
      = [f (ys ! (2 * (p - 1))), f (ys ! (2 * (p - 1) + 1))]" if "p \<in> set [1..<Suc n]" for p
  proof -
    from that have "1 \<le> p" by (simp del: upt_Suc)
    then obtain q where "p = Suc q" by (cases p) auto
    then show ?thesis by (simp add: xs)
  qed
  have "concat (map (\<lambda>p. [f (xs ! (2 * (p - 1))), f (xs ! (2 * (p - 1) + 1))]) [1..<Suc (Suc n)])
      = [f a, f b] @ concat (map (\<lambda>p. [f (xs ! (2 * (Suc p - 1))), f (xs ! (2 * (Suc p - 1) + 1))])
                              [1..<Suc n])"
    unfolding l by (simp add: comp_def xs del: upt_Suc)
  also have "map (\<lambda>p. [f (xs ! (2 * (Suc p - 1))), f (xs ! (2 * (Suc p - 1) + 1))]) [1..<Suc n]
      = map (\<lambda>p. [f (ys ! (2 * (p - 1))), f (ys ! (2 * (p - 1) + 1))]) [1..<Suc n]"
    by (rule map_cong [OF refl]) (rule shift)
  also have "concat \<dots> = map f ys" by (rule Suc.IH [OF ys])
  finally show ?case by (simp add: xs)
qed

lemma slots_of_bracket:
  assumes "length ms = length (bracketSlots T)"
    and "\<forall>k<length ms. (Match.stage (ms ! k), stagePosition (ms ! k)) = bracketSlots T ! k"
  shows "map (\<lambda>m. (Match.stage m, stagePosition m)) ms = bracketSlots T"
  using assms by (intro nth_equalityI) simp_all

lemma stage_positions:
  assumes "map (\<lambda>m. (Match.stage m, stagePosition m)) ms = bracketSlots T"
    and "1 \<le> r" "r \<le> T"
  shows "map stagePosition (filter (\<lambda>m. Match.stage m = r) ms) = [1..<Suc (2 ^ (T - r))]"
proof -
  have "map snd (filter (\<lambda>rp. fst rp = r) (map (\<lambda>m. (Match.stage m, stagePosition m)) ms))
      = map stagePosition (filter (\<lambda>m. Match.stage m = r) ms)"
    by (simp add: filter_map comp_def)
  then show ?thesis
    unfolding assms(1) filter_bracketSlots [OF assms(2,3)] by (simp add: comp_def del: upt_Suc)
qed

text \<open>
  C3. For a list of N = 2^T teams (T at least 1, which covers 4, 8 and 16) and any
  outcome of the shuffle that is a permutation of it, generateBracket returns a list of
  exactly N - 1 matches; their (stage, stagePosition) pairs are pairwise distinct; the
  stages that occur are exactly 1..T, where T = log2 N, and stage r holds exactly
  2^(T - r) matches, numbered 1, 2, ... in order; exactly one match has a null
  nextMatchId, and every other nextMatchId is the id of a match of the list.
\<close>

theorem generateBracket_shape:
  assumes n: "length teamList = 2 ^ T" and T: "0 < T"
    and sh: "mset shuffledTeams = mset teamList"
  shows "\<exists>ms. generateBracket gen shuffledTeams teamList = Inr ms
     \<and> log2 (length teamList) = T
     \<and> length ms = length teamList - 1
     \<and> distinct (map (\<lambda>m. (Match.stage m, stagePosition m)) ms)
     \<and> set (map Match.stage ms) = {1..T}
     \<and> (\<forall>r\<in>{1..T}. map stagePosition (filter (\<lambda>m. Match.stage m = r) ms)
                        = [1..<Suc (2 ^ (T - r))])
     \<and> length (filter (\<lambda>m. nextMatchId m = None) ms) = 1
     \<and> (\<forall>m\<in>set ms. nextMatchId m \<noteq> None \<longrightarrow>
            (\<exists>m'\<in>set ms. nextMatchId m = Some (Match.id m')))"
proof -
  have len: "length shuffledTeams = length teamList" using sh by (rule mset_eq_length)
  from generateBracket_char [OF n len, of gen] obtain ms where
    run: "generateBracket gen shuffledTeams teamList = Inr ms"
    and lms: "length ms = length (bracketSlots T)"
    and sl: "\<forall>k<length ms. (Match.stage (ms ! k), stagePosition (ms ! k)) = bracketSlots T ! k"
    and lk: "\<forall>k<length ms. Match.stage (ms ! k) < T \<longrightarrow>
                (\<exists>k'<length ms.
                    bracketSlots T ! k' = (Match.stage (ms ! k) + 1, (stagePosition (ms ! k) + 1) div 2)
                    \<and> nextMatchId (ms ! k) = Some (Match.id (ms ! k')))"
    and fin: "\<forall>k<length ms. \<not> Match.stage (ms ! k) < T \<longrightarrow> nextMatchId (ms ! k) = None"
    by blast
  have slots: "map (\<lambda>m. (Match.stage m, stagePosition m)) ms = bracketSlots T"
    using lms sl by (rule slots_of_bracket)
  have c2: "length ms = length teamList - 1"
    unfolding lms length_bracketSlots n ..
  have c3: "distinct (map (\<lambda>m. (Match.stage m, stagePosition m)) ms)"
    unfolding slots by (rule distinct_bracketSlots)
  have "set (map Match.stage ms) = fst ` set (map (\<lambda>m. (Match.stage m, stagePosition m)) ms)"
    by (simp add: image_comp comp_def)
  also have "\<dots> = {1..T}"
  proof -
    have "r \<in> fst ` set (bracketSlots T) \<longleftrightarrow> r \<in> {1..T}" for r
    proof
      assume "r \<in> fst ` set (bracketSlots T)"
      then show "r \<in> {1..T}" by (auto simp: set_bracketSlots)
    next
      assume "r \<in> {1..T}"
      then have "(r, 1) \<in> set (bracketSlots T)" by (simp add: set_bracketSlots)
      then show "r \<in> fst ` set (bracketSlots T)" by force
    qed
    then show ?thesis unfolding slots by blast
  qed
  finally have c4: "set (map Match.stage ms) = {1..T}" .
  have c5: "\<forall>r\<in>{1..T}. map stagePosition (filter (\<lambda>m. Match.stage m = r) ms)
                        = [1..<Suc (2 ^ (T - r))]"
    using stage_positions [OF slots] by simp
  have none_iff: "nextMatchId m = None \<longleftrightarrow> Match.stage m = T" if "m \<in> set ms" for m
  proof -
    from that obtain k where k: "k < length ms" "m = ms ! k" by (auto simp: in_set_conv_nth)
    have "Match.stage m \<in> {1..T}" using that c4 by auto
    then have le: "Match.stage m \<le> T" by simp
    show ?thesis
    proof (cases "Match.stage m < T")
      case True
      with lk k have "nextMatchId m \<noteq> None" by auto
      with True show ?thesis by simp
    next
      case False
      with fin k have "nextMatchId m = None" by auto
      with False le show ?thesis by simp
    qed
  qed
  have "filter (\<lambda>m. nextMatchId m = None) ms = filter (\<lambda>m. Match.stage m = T) ms"
    by (rule filter_cong [OF refl]) (rule none_iff)
  then have "length (filter (\<lambda>m. nextMatchId m = None) ms)
      = length (map stagePosition (filter (\<lambda>m. Match.stage m = T) ms))"
    by simp
  also have "\<dots> = 1" using c5 T by simp
  finally have c6: "length (filter (\<lambda>m. nextMatchId m = None) ms) = 1" .
  have c7: "\<forall>m\<in>set ms. nextMatchId m \<noteq> None \<longrightarrow>
            (\<exists>m'\<in>set ms. nextMatchId m = Some (Match.id m'))"
  proof (intro ballI impI)
    fix m assume m: "m \<in> set ms" "nextMatchId m \<noteq> None"
    then obtain k where k: "k < length ms" "m = ms ! k" by (auto simp: in_set_conv_nth)
    from m fin k have "Match.stage (ms ! k) < T" by auto
    with lk k obtain k' where "k' < length ms" "nextMatchId m = Some (Match.id (ms ! k'))"
      by blast
    then show "\<exists>m'\<in>set ms. nextMatchId m = Some (Match.id m')"
      using nth_mem by blast
  qed
  from run c2 c3 c4 c5 c6 c7 n show ?thesis by (intro exI [of _ ms]) simp
qed

theorem generateBracket_shape_witness:
  "\<exists>ms. generateBracket exampleGen (rev (teams exampleCupT)) (teams exampleCupT) = Inr ms
     \<and> length ms = 3 \<and> set (map Match.stage ms) = {1..2}
     \<and> length (filter (\<lambda>m. nextMatchId m = None) ms) = 1"
proof -
  have n: "length (teams exampleCupT) = 2 ^ 2" by (simp add: example_defs)
  have sh: "mset (rev (teams exampleCupT)) = mset (teams exampleCupT)" by simp
  from generateBracket_shape [OF n _ sh, of exampleGen] n show ?thesis by auto
qed

text \<open>
  C6. In the bracket generated for 2^T teams there is a match at every round r from 1 to
  T and every position p from 1 to 2^(T - r), and no other. For r below T the match at
  position p of round r has as nextMatchId the id of the match at round r + 1 and
  position ceil(p / 2), which exists and is the only one there; the match of round T,
  which exists when T is at least 1, has a null nextMatchId.
\<close>

theorem generateBracket_links:
  assumes n: "length teamList = 2 ^ T"
    and sh: "mset shuffledTeams = mset teamList"
  shows "\<exists>ms. generateBracket gen shuffledTeams teamList = Inr ms
     \<and> (\<forall>m\<in>set ms.
           (Match.stage m < T \<longrightarrow>
              (\<exists>m'\<in>set ms. Match.stage m' = Match.stage m + 1
                   \<and> stagePosition m' = (stagePosition m + 1) div 2)
              \<and> (\<forall>m'\<in>set ms. Match.stage m' = Match.stage m + 1
                   \<and> stagePosition m' = (stagePosition m + 1) div 2
                   \<longrightarrow> nextMatchId m = Some (Match.id m')))
           \<and> (Match.stage m = T \<longrightarrow> nextMatchId m = None))
     \<and> (\<forall>m\<in>set ms. 1 \<le> Match.stage m \<and> Match.stage m \<le> T
           \<and> 1 \<le> stagePosition m \<and> stagePosition m \<le> 2 ^ (T - Match.stage m))
     \<and> (\<forall>r p. 1 \<le> r \<and> r \<le> T \<and> 1 \<le> p \<and> p \<le> 2 ^ (T - r) \<longrightarrow>
           (\<exists>m\<in>set ms. Match.stage m = r \<and> stagePosition m = p
              \<and> (r < T \<longrightarrow>
                   (\<exists>m'\<in>set ms. Match.stage m' = r + 1 \<and> stagePosition m' = (p + 1) div 2
                      \<and> nextMatchId m = Some (Match.id m')))
              \<and> (r = T \<longrightarrow> nextMatchId m = None)))
     \<and> (0 < T \<longrightarrow>
           (\<exists>m\<in>set ms. Match.stage m = T \<and> stagePosition m = 1 \<and> nextMatchId m = None))"
proof -
  have len: "length shuffledTeams = length teamList" using sh by (rule mset_eq_length)
  from generateBracket_char [OF n len, of gen] obtain ms where
    run: "generateBracket gen shuffledTeams teamList = Inr ms"
    and lms: "length ms = length (bracketSlots T)"
    and sl: "\<forall>k<length ms. (Match.stage (ms ! k), stagePosition (ms ! k)) = bracketSlots T ! k"
    and lk: "\<forall>k<length ms. Match.stage (ms ! k) < T \<longrightarrow>
                (\<exists>k'<length ms.
                    bracketSlots T ! k' = (Match.stage (ms ! k) + 1, (stagePosition (ms ! k) + 1) div 2)
                    \<and> nextMatchId (ms ! k) = Some (Match.id (ms ! k')))"
    and fin: "\<forall>k<length ms. \<not> Match.stage (ms ! k) < T \<longrightarrow> nextMatchId (ms ! k) = None"
    by blast
  have slots: "map (\<lambda>m. (Match.stage m, stagePosition m)) ms = bracketSlots T"
    using lms sl by (rule slots_of_bracket)
  have dist: "distinct (map (\<lambda>m. (Match.stage m, stagePosition m)) ms)"
    unfolding slots by (rule distinct_bracketSlots)
  have each: "(Match.stage m < T \<longrightarrow>
              (\<exists>m'\<in>set ms. Match.stage m' = Match.stage m + 1
                   \<and> stagePosition m' = (stagePosition m + 1) div 2)
              \<and> (\<forall>m'\<in>set ms. Match.stage m' = Match.stage m + 1
                   \<and> stagePosition m' = (stagePosition m + 1) div 2
                   \<longrightarrow> nextMatchId m = Some (Match.id m')))
           \<and> (Match.stage m = T \<longrightarrow> nextMatchId m = None)" if m: "m \<in> set ms" for m
  proof -
    from m obtain k where k: "k < length ms" "m = ms ! k" by (auto simp: in_set_conv_nth)
    have a: "(\<exists>m'\<in>set ms. Match.stage m' = Match.stage m + 1
                   \<and> stagePosition m' = (stagePosition m + 1) div 2)
              \<and> (\<forall>m'\<in>set ms. Match.stage m' = Match.stage m + 1
                   \<and> stagePosition m' = (stagePosition m + 1) div 2
                   \<longrightarrow> nextMatchId m = Some (Match.id m'))" if lt: "Match.stage m < T"
    proof -
      from lk k lt obtain k' where k': "k' < length ms"
        "bracketSlots T ! k' = (Match.stage m + 1, (stagePosition m + 1) div 2)"
        "nextMatchId m = Some (Match.id (ms ! k'))"
        by blast
      from sl k'(1,2) have tgt: "Match.stage (ms ! k') = Match.stage m + 1"
        "stagePosition (ms ! k') = (stagePosition m + 1) div 2"
        by auto
      have uniq: "m' = ms ! k'" if "m' \<in> set ms" "Match.stage m' = Match.stage m + 1"
        "stagePosition m' = (stagePosition m + 1) div 2" for m'
      proof -
        have inj: "inj_on (\<lambda>m. (Match.stage m, stagePosition m)) (set ms)"
          using dist by (simp add: distinct_map)
        have mem: "ms ! k' \<in> set ms" using k'(1) by simp
        have "(\<lambda>m. (Match.stage m, stagePosition m)) m'
            = (\<lambda>m. (Match.stage m, stagePosition m)) (ms ! k')"
          using that tgt by simp
        from inj_onD [OF inj this that(1) mem] show ?thesis .
      qed
      have "ms ! k' \<in> set ms" using k'(1) by simp
      with tgt uniq k'(3) show ?thesis by blast
    qed
    have b: "nextMatchId m = None" if "Match.stage m = T"
      using fin k that by auto
    from a b show ?thesis by blast
  qed
  have range: "\<forall>m\<in>set ms. 1 \<le> Match.stage m \<and> Match.stage m \<le> T
           \<and> 1 \<le> stagePosition m \<and> stagePosition m \<le> 2 ^ (T - Match.stage m)"
  proof
    fix m assume "m \<in> set ms"
    then have "(Match.stage m, stagePosition m) \<in> set (map (\<lambda>m. (Match.stage m, stagePosition m)) ms)"
      by (rule imageI [of m "set ms" "\<lambda>m. (Match.stage m, stagePosition m)", unfolded set_map [symmetric]])
    then have "(Match.stage m, stagePosition m) \<in> set (bracketSlots T)"
      unfolding slots .
    then show "1 \<le> Match.stage m \<and> Match.stage m \<le> T
           \<and> 1 \<le> stagePosition m \<and> stagePosition m \<le> 2 ^ (T - Match.stage m)"
      by (simp add: set_bracketSlots)
  qed
  have at: "\<exists>m\<in>set ms. Match.stage m = r \<and> stagePosition m = p
              \<and> (r < T \<longrightarrow>
                   (\<exists>m'\<in>set ms. Match.stage m' = r + 1 \<and> stagePosition m' = (p + 1) div 2
                      \<and> nextMatchId m = Some (Match.id m')))
              \<and> (r = T \<longrightarrow> nextMatchId m = None)"
    if rp: "1 \<le> r \<and> r \<le> T \<and> 1 \<le> p \<and> p \<le> 2 ^ (T - r)" for r p
  proof -
    from rp have "(r, p) \<in> set (bracketSlots T)" by (simp add: set_bracketSlots)
    then have "(r, p) \<in> set (map (\<lambda>m. (Match.stage m, stagePosition m)) ms)"
      unfolding slots .
    then obtain m where m: "m \<in> set ms" "Match.stage m = r" "stagePosition m = p"
      by auto
    have l: "\<exists>m'\<in>set ms. Match.stage m' = r + 1 \<and> stagePosition m' = (p + 1) div 2
                      \<and> nextMatchId m = Some (Match.id m')" if "r < T"
    proof -
      from that m(2) have lt: "Match.stage m < T" by simp
      from each [OF m(1)] lt have
        ex: "\<exists>m'\<in>set ms. Match.stage m' = Match.stage m + 1
                   \<and> stagePosition m' = (stagePosition m + 1) div 2"
        and all: "\<forall>m'\<in>set ms. Match.stage m' = Match.stage m + 1
                   \<and> stagePosition m' = (stagePosition m + 1) div 2
                   \<longrightarrow> nextMatchId m = Some (Match.id m')"
        by simp_all
      from ex obtain m' where
        m': "m' \<in> set ms" "Match.stage m' = Match.stage m + 1"
          "stagePosition m' = (stagePosition m + 1) div 2"
        by blast
      from all m' have "nextMatchId m = Some (Match.id m')" by blast
      with m' m(2,3) show ?thesis by blast
    qed
    have f: "nextMatchId m = None" if "r = T"
      using each [OF m(1)] that m(2) by simp
    from m l f show ?thesis by blast
  qed
  have final: "\<exists>m\<in>set ms. Match.stage m = T \<and> stagePosition m = 1 \<and> nextMatchId m = None"
    if "0 < T"
  proof -
    from that have "1 \<le> T \<and> T \<le> T \<and> (1::nat) \<le> 1 \<and> (1::nat) \<le> 2 ^ (T - T)" by simp
    from at [OF this] show ?thesis by auto
  qed
  have p1: "\<forall>m\<in>set ms.
           (Match.stage m < T \<longrightarrow>
              (\<exists>m'\<in>set ms. Match.stage m' = Match.stage m + 1
                   \<and> stagePosition m' = (stagePosition m + 1) div 2)
              \<and> (\<forall>m'\<in>set ms. Match.stage m' = Match.stage m + 1
                   \<and> stagePosition m' = (stagePosition m + 1) div 2
                   \<longrightarrow> nextMatchId m = Some (Match.id m')))
           \<and> (Match.stage m = T \<longrightarrow> nextMatchId m = None)"
  proof
    fix m assume "m \<in> set ms"
    then show "(Match.stage m < T \<longrightarrow>
              (\<exists>m'\<in>set ms. Match.stage m' = Match.stage m + 1
                   \<and> stagePosition m' = (stagePosition m + 1) div 2)
              \<and> (\<forall>m'\<in>set ms. Match.stage m' = Match.stage m + 1
                   \<and> stagePosition m' = (stagePosition m + 1) div 2
                   \<longrightarrow> nextMatchId m = Some (Match.id m')))
           \<and> (Match.stage m = T \<longrightarrow> nextMatchId m = None)"
      by (rule each)
  qed
  have p3: "\<forall>r p. 1 \<le> r \<and> r \<le> T \<and> 1 \<le> p \<and> p \<le> 2 ^ (T - r) \<longrightarrow>
           (\<exists>m\<in>set ms. Match.stage m = r \<and> stagePosition m = p
              \<and> (r < T \<longrightarrow>
                   (\<exists>m'\<in>set ms. Match.stage m' = r + 1 \<and> stagePosition m' = (p + 1) div 2
                      \<and> nextMatchId m = Some (Match.id m')))
              \<and> (r = T \<longrightarrow> nextMatchId m = None))"
    using at by blast
  have p4: "0 < T \<longrightarrow>
           (\<exists>m\<in>set ms. Match.stage m = T \<and> stagePosition m = 1 \<and> nextMatchId m = None)"
    using final by blast
  show ?thesis
    apply (rule exI [of _ ms])
    apply (intro conjI)
        apply (rule run)
       apply (rule p1)
      apply (rule range)
     apply (rule p3)
    apply (rule p4)
    done
qed


theorem generateBracket_links_witness:
  "\<exists>ms. generateBracket exampleGen (rev (teams exampleCupT)) (teams exampleCupT) = Inr ms
     \<and> (\<exists>m\<in>set ms. \<exists>m'\<in>set ms. Match.stage m = 1 \<and> stagePosition m = 2
           \<and> Match.stage m' = 2 \<and> stagePosition m' = 1
           \<and> nextMatchId m = Some (Match.id m'))
     \<and> (\<exists>m\<in>set ms. Match.stage m = 2 \<and> stagePosition m = 1 \<and> nextMatchId m = None)
     \<and> length (filter (\<lambda>m. Match.stage m = 2 \<and> nextMatchId m \<noteq> None) ms) = 0"
proof -
  have n: "length (teams exampleCupT) = 2 ^ 2" by (simp add: example_defs)
  have sh: "mset (rev (teams exampleCupT)) = mset (teams exampleCupT)" by simp
  from generateBracket_links [OF n sh, of exampleGen] obtain ms where
    run: "generateBracket exampleGen (rev (teams exampleCupT)) (teams exampleCupT) = Inr ms"
    and each: "\<forall>m\<in>set ms.
           (Match.stage m < 2 \<longrightarrow>
              (\<exists>m'\<in>set ms. Match.stage m' = Match.stage m + 1
                   \<and> stagePosition m' = (stagePosition m + 1) div 2)
              \<and> (\<forall>m'\<in>set ms. Match.stage m' = Match.stage m + 1
                   \<and> stagePosition m' = (stagePosition m + 1) div 2
                   \<longrightarrow> nextMatchId m = Some (Match.id m')))
           \<and> (Match.stage m = 2 \<longrightarrow> nextMatchId m = None)"
    and range: "\<forall>m\<in>set ms. 1 \<le> Match.stage m \<and> Match.stage m \<le> 2
           \<and> 1 \<le> stagePosition m \<and> stagePosition m \<le> 2 ^ (2 - Match.stage m)"
    and at: "\<forall>r p. 1 \<le> r \<and> r \<le> 2 \<and> 1 \<le> p \<and> p \<le> 2 ^ (2 - r) \<longrightarrow>
           (\<exists>m\<in>set ms. Match.stage m = r \<and> stagePosition m = p
              \<and> (r < 2 \<longrightarrow>
                   (\<exists>m'\<in>set ms. Match.stage m' = r + 1 \<and> stagePosition m' = (p + 1) div 2
                      \<and> nextMatchId m = Some (Match.id m')))
              \<and> (r = 2 \<longrightarrow> nextMatchId m = None))"
    and final: "(0::nat) < 2 \<longrightarrow>
           (\<exists>m\<in>set ms. Match.stage m = 2 \<and> stagePosition m = 1 \<and> nextMatchId m = None)"
    by (elim exE conjE) (rule that; assumption)
  have pre: "(1::nat) \<le> 1 \<and> (1::nat) \<le> 2 \<and> (1::nat) \<le> 2 \<and> (2::nat) \<le> 2 ^ (2 - 1)"
    by simp
  from at [rule_format, of 1 2, OF pre] have "\<exists>m\<in>set ms. Match.stage m = 1 \<and> stagePosition m = 2
              \<and> ((1::nat) < 2 \<longrightarrow>
                   (\<exists>m'\<in>set ms. Match.stage m' = 1 + 1 \<and> stagePosition m' = (2 + 1) div 2
                      \<and> nextMatchId m = Some (Match.id m')))
              \<and> ((1::nat) = 2 \<longrightarrow> nextMatchId m = None)"
    .
  then obtain m where m: "m \<in> set ms" "Match.stage m = 1" "stagePosition m = 2"
    "\<exists>m'\<in>set ms. Match.stage m' = 1 + 1 \<and> stagePosition m' = (2 + 1) div 2
        \<and> nextMatchId m = Some (Match.id m')"
    by auto
  from m(4) obtain m' where m': "m' \<in> set ms" "Match.stage m' = 2" "stagePosition m' = 1"
    "nextMatchId m = Some (Match.id m')"
    by auto
  from m(1,2,3) m' have feeder:
    "\<exists>m\<in>set ms. \<exists>m'\<in>set ms. Match.stage m = 1 \<and> stagePosition m = 2
           \<and> Match.stage m' = 2 \<and> stagePosition m' = 1
           \<and> nextMatchId m = Some (Match.id m')"
    by blast
  from final have last:
    "\<exists>m\<in>set ms. Match.stage m = 2 \<and> stagePosition m = 1 \<and> nextMatchId m = None"
    by simp
  have "\<forall>m\<in>set ms. Match.stage m = 2 \<longrightarrow> nextMatchId m = None"
    using each by simp
  then have "filter (\<lambda>m. Match.stage m = 2 \<and> nextMatchId m \<noteq> None) ms = []"
    by (auto simp: filter_empty_conv)
  then have none: "length (filter (\<lambda>m. Match.stage m = 2 \<and> nextMatchId m \<noteq> None) ms) = 0"
    by simp
  show ?thesis
    apply (rule exI [of _ ms])
    apply (intro conjI)
       apply (rule run)
      apply (rule feeder)
     apply (rule last)
    apply (rule none)
    done
qed

text \<open>
  C7. In the bracket generated for 2^T teams (T at least 1) from a permutation
  \<open>shuffledTeams\<close> of the teams, the round-1 match at position p has
  homeTeamId = shuffledTeams[2 (p - 1)].id, awayTeamId = shuffledTeams[2 (p - 1) + 1].id and
  status ready, so that the slots of round 1, read in order, are the ids of the shuffled
  teams, each team once; every match of a later round has null team slots, null scores,
  a null winner and status pending.
\<close>

theorem generateBracket_seeding:
  assumes n: "length teamList = 2 ^ T" and T: "0 < T"
    and sh: "mset shuffledTeams = mset teamList"
  shows "\<exists>ms. generateBracket gen shuffledTeams teamList = Inr ms
     \<and> (\<forall>m\<in>set ms. Match.stage m = 1 \<longrightarrow>
           2 * (stagePosition m - 1) + 1 < length shuffledTeams
           \<and> homeTeamId m = Some (Team.id (shuffledTeams ! (2 * (stagePosition m - 1))))
           \<and> awayTeamId m = Some (Team.id (shuffledTeams ! (2 * (stagePosition m - 1) + 1)))
           \<and> Match.status m = Ready)
     \<and> (\<forall>m\<in>set ms. Match.stage m \<noteq> 1 \<longrightarrow>
           2 \<le> Match.stage m \<and> homeTeamId m = None \<and> awayTeamId m = None
           \<and> homeRounds m = None \<and> awayRounds m = None \<and> winnerId m = None
           \<and> Match.status m = Pending)
     \<and> concat (map (\<lambda>m. [homeTeamId m, awayTeamId m]) (filter (\<lambda>m. Match.stage m = 1) ms))
         = map (\<lambda>t. Some (Team.id t)) shuffledTeams
     \<and> mset (map Team.id shuffledTeams) = mset (map Team.id teamList)"
proof -
  have len: "length shuffledTeams = length teamList" using sh by (rule mset_eq_length)
  from generateBracket_char [OF n len, of gen] obtain ms where
    run: "generateBracket gen shuffledTeams teamList = Inr ms"
    and lms: "length ms = length (bracketSlots T)"
    and sl: "\<forall>k<length ms. (Match.stage (ms ! k), stagePosition (ms ! k)) = bracketSlots T ! k"
    and fields: "\<forall>k<length ms.
          winnerId (ms ! k) = None \<and> homeRounds (ms ! k) = None \<and> awayRounds (ms ! k) = None
          \<and> homeTeamId (ms ! k) =
              (if Match.stage (ms ! k) = 1
               then Some (Team.id (shuffledTeams ! ((stagePosition (ms ! k) - 1) * 2))) else None)
          \<and> awayTeamId (ms ! k) =
              (if Match.stage (ms ! k) = 1
               then Some (Team.id (shuffledTeams ! ((stagePosition (ms ! k) - 1) * 2 + 1))) else None)
          \<and> Match.status (ms ! k) = (if Match.stage (ms ! k) = 1 then Ready else Pending)"
    by blast
  have slots: "map (\<lambda>m. (Match.stage m, stagePosition m)) ms = bracketSlots T"
    using lms sl by (rule slots_of_bracket)
  have inS: "(Match.stage m, stagePosition m) \<in> set (bracketSlots T)" if "m \<in> set ms" for m
    using that slots [symmetric] by auto
  have f: "winnerId m = None \<and> homeRounds m = None \<and> awayRounds m = None
          \<and> homeTeamId m =
              (if Match.stage m = 1
               then Some (Team.id (shuffledTeams ! (2 * (stagePosition m - 1)))) else None)
          \<and> awayTeamId m =
              (if Match.stage m = 1
               then Some (Team.id (shuffledTeams ! (2 * (stagePosition m - 1) + 1))) else None)
          \<and> Match.status m = (if Match.stage m = 1 then Ready else Pending)"
    if "m \<in> set ms" for m
  proof -
    from that obtain k where "k < length ms" "m = ms ! k" by (auto simp: in_set_conv_nth)
    with fields show ?thesis by (simp add: mult.commute)
  qed
  have first: "\<forall>m\<in>set ms. Match.stage m = 1 \<longrightarrow>
           2 * (stagePosition m - 1) + 1 < length shuffledTeams
           \<and> homeTeamId m = Some (Team.id (shuffledTeams ! (2 * (stagePosition m - 1))))
           \<and> awayTeamId m = Some (Team.id (shuffledTeams ! (2 * (stagePosition m - 1) + 1)))
           \<and> Match.status m = Ready"
  proof (intro ballI impI)
    fix m assume m: "m \<in> set ms" "Match.stage m = 1"
    from inS [OF m(1)] m(2) have "(1, stagePosition m) \<in> set (bracketSlots T)" by simp
    from first_round_slot [OF this] have "1 \<le> stagePosition m" "2 * stagePosition m \<le> 2 ^ T"
      by simp_all
    then have "2 * (stagePosition m - 1) + 1 < 2 ^ T" by arith
    then have "2 * (stagePosition m - 1) + 1 < length shuffledTeams"
      using n len by simp
    with f [OF m(1)] m(2) show "2 * (stagePosition m - 1) + 1 < length shuffledTeams
           \<and> homeTeamId m = Some (Team.id (shuffledTeams ! (2 * (stagePosition m - 1))))
           \<and> awayTeamId m = Some (Team.id (shuffledTeams ! (2 * (stagePosition m - 1) + 1)))
           \<and> Match.status m = Ready"
      by simp
  qed
  have later: "\<forall>m\<in>set ms. Match.stage m \<noteq> 1 \<longrightarrow>
           2 \<le> Match.stage m \<and> homeTeamId m = None \<and> awayTeamId m = None
           \<and> homeRounds m = None \<and> awayRounds m = None \<and> winnerId m = None
           \<and> Match.status m = Pending"
  proof (intro ballI impI)
    fix m assume m: "m \<in> set ms" "Match.stage m \<noteq> 1"
    from inS [OF m(1)] have "1 \<le> Match.stage m" by (simp add: set_bracketSlots)
    with f [OF m(1)] m(2) show "2 \<le> Match.stage m \<and> homeTeamId m = None \<and> awayTeamId m = None
           \<and> homeRounds m = None \<and> awayRounds m = None \<and> winnerId m = None
           \<and> Match.status m = Pending"
      by simp
  qed
  have half: "length shuffledTeams = 2 * 2 ^ (T - 1)"
  proof -
    have "T = Suc (T - 1)" using T by simp
    then have "(2::nat) ^ T = 2 * 2 ^ (T - 1)" by (metis power_Suc)
    with n len show ?thesis by simp
  qed
  have "map (\<lambda>m. [homeTeamId m, awayTeamId m]) (filter (\<lambda>m. Match.stage m = 1) ms)
      = map (\<lambda>m. [Some (Team.id (shuffledTeams ! (2 * (stagePosition m - 1)))),
                   Some (Team.id (shuffledTeams ! (2 * (stagePosition m - 1) + 1)))])
          (filter (\<lambda>m. Match.stage m = 1) ms)"
    by (rule map_cong [OF refl]) (use f in auto)
  also have "\<dots> = map (\<lambda>p. [Some (Team.id (shuffledTeams ! (2 * (p - 1)))),
                   Some (Team.id (shuffledTeams ! (2 * (p - 1) + 1)))])
          (map stagePosition (filter (\<lambda>m. Match.stage m = 1) ms))"
    by (simp add: comp_def)
  also have "map stagePosition (filter (\<lambda>m. Match.stage m = 1) ms) = [1..<Suc (2 ^ (T - 1))]"
    using stage_positions [OF slots, of 1] T by simp
  finally have "concat (map (\<lambda>m. [homeTeamId m, awayTeamId m]) (filter (\<lambda>m. Match.stage m = 1) ms))
      = concat (map (\<lambda>p. [Some (Team.id (shuffledTeams ! (2 * (p - 1)))),
                   Some (Team.id (shuffledTeams ! (2 * (p - 1) + 1)))]) [1..<Suc (2 ^ (T - 1))])"
    by simp
  also have "\<dots> = map (\<lambda>t. Some (Team.id t)) shuffledTeams"
    by (rule pairs_concat [OF half])
  finally have seeds: "concat (map (\<lambda>m. [homeTeamId m, awayTeamId m])
        (filter (\<lambda>m. Match.stage m = 1) ms)) = map (\<lambda>t. Some (Team.id t)) shuffledTeams" .
  have perm: "mset (map Team.id shuffledTeams) = mset (map Team.id teamList)"
    using sh by (metis mset_map)
  from run first later seeds perm show ?thesis by blast
qed

theorem generateBracket_seeding_witness:
  "\<exists>ms. generateBracket exampleGen (rev (teams exampleCupT)) (teams exampleCupT) = Inr ms
     \<and> concat (map (\<lambda>m. [homeTeamId m, awayTeamId m]) (filter (\<lambda>m. Match.stage m = 1) ms))
         = [Some ''team_d'', Some ''team_c'', Some ''team_b'', Some ''team_a'']"
proof -
  have n: "length (teams exampleCupT) = 2 ^ 2" by (simp add: example_defs)
  have sh: "mset (rev (teams exampleCupT)) = mset (teams exampleCupT)" by simp
  have ids: "map (\<lambda>t. Some (Team.id t)) (rev (teams exampleCupT))
      = [Some ''team_d'', Some ''team_c'', Some ''team_b'', Some ''team_a'']"
    by (simp add: example_defs)
  from generateBracket_seeding [OF n _ sh, of exampleGen] ids show ?thesis by auto
qed

section \<open>The invariant of completed matches\<close>

lemma set_update_subset: "set (AList.update k v al) \<subseteq> insert (k, v) (set al)"
  by (induction al) auto

lemma registryOk_update:
  assumes "registryOk reg" "\<forall>m\<in>set (matches t). completedOk m"
  shows "registryOk (AList.update k t reg)"
  unfolding registryOk_def
proof
  fix kt assume "kt \<in> set (AList.update k t reg)"
  with set_update_subset [of k t reg] have "kt = (k, t) \<or> kt \<in> set reg" by auto
  with assms show "\<forall>m\<in>set (matches (snd kt)). completedOk m"
    by (auto simp: registryOk_def)
qed

lemma registryOk_lookup:
  "registryOk reg \<Longrightarrow> map_of reg k = Some t \<Longrightarrow> \<forall>m\<in>set (matches t). completedOk m"
  by (auto simp: registryOk_def dest!: map_of_SomeD)

lemma completedOk_completeMatch:
  assumes "isValidValorantScore h a" "truthy (homeTeamId m)" "truthy (awayTeamId m)"
  shows "completedOk (completeMatch now h a m)"
  using assms truthyD [OF assms(2)] truthyD [OF assms(3)]
  by (simp add: completedOk_def winnerId_completeMatch)

lemma completedOk_fillSlot:
  assumes "completedOk m"
  shows "completedOk (fillSlot now w m)"
proof (cases "Match.status m = Completed")
  case True
  with assms have "truthy (homeTeamId m)" "truthy (awayTeamId m)"
    by (simp_all add: completedOk_def)
  with assms True show ?thesis
    by (simp add: completedOk_def fillSlot_def Let_def)
next
  case False
  then have "Match.status (fillSlot now w m) \<noteq> Completed"
    by (simp add: fillSlot_def Let_def)
  then show ?thesis by (simp add: completedOk_def)
qed

lemma completedOk_list_update:
  "\<forall>m\<in>set ms. completedOk m \<Longrightarrow> completedOk x \<Longrightarrow> \<forall>m\<in>set (ms[i := x]). completedOk m"
  using set_update_subset_insert [of ms i x] by auto

lemma completedOk_propagate:
  assumes "\<forall>m\<in>set ms. completedOk m"
  shows "\<forall>m\<in>set (fst (propagate now i ms)). completedOk m"
proof (cases "truthy (nextMatchId (ms ! i))")
  case False
  with assms show ?thesis by (simp add: propagate_def)
next
  case True
  show ?thesis
  proof (cases "findIndex (\<lambda>m. Some (Match.id m) = nextMatchId (ms ! i)) ms")
    case None
    with True assms show ?thesis by (simp add: propagate_def)
  next
    case (Some j)
    then have "j < length ms" by (auto dest: findIndex_Some)
    then have "completedOk (ms ! j)" using assms by simp
    then have "completedOk (fillSlot now (winnerId (ms ! i)) (ms ! j))"
      by (rule completedOk_fillSlot)
    with assms have "\<forall>m\<in>set (ms[j := fillSlot now (winnerId (ms ! i)) (ms ! j)]). completedOk m"
      by (rule completedOk_list_update)
    with True Some show ?thesis by (simp add: propagate_def Let_def)
  qed
qed

lemma completedOk_report:
  assumes "registryOk reg" "map_of reg tid = Some t" "isValidValorantScore h a"
    and "truthy (homeTeamId (matches t ! i))" "truthy (awayTeamId (matches t ! i))"
    and "propagate now i ((matches t)[i := completeMatch now h a (matches t ! i)]) = (ms2, nx)"
  shows "\<forall>m\<in>set ms2. completedOk m"
proof -
  have old: "\<forall>m\<in>set (matches t). completedOk m"
    using assms(1,2) by (rule registryOk_lookup)
  have "completedOk (completeMatch now h a (matches t ! i))"
    using assms(3,4,5) by (rule completedOk_completeMatch)
  with old have "\<forall>m\<in>set ((matches t)[i := completeMatch now h a (matches t ! i)]). completedOk m"
    by (rule completedOk_list_update)
  from completedOk_propagate [OF this, of now i] show ?thesis
    unfolding assms(6) by simp
qed

lemma registryOk_reportMatchResult:
  assumes ok: "registryOk reg" and run: "reportMatchResult now reg tid mid h a = (reg', res)"
  shows "registryOk reg'"
  using run ok unfolding reportMatchResult_def Let_def
  by (auto split: if_splits option.splits sum.splits prod.splits
      intro!: registryOk_update
      dest!: checkTournamentProgress_fields
      dest: completedOk_report)

lemma bracketStep_fresh:
  assumes "\<forall>m\<in>set (fst st). Match.status m \<noteq> Completed"
    and "bracketStep gen teamList sh T r st p = Inr st'"
  shows "\<forall>m\<in>set (fst st'). Match.status m \<noteq> Completed"
  using assms
  by (auto simp: bracketStep_def assignTeams_def linkNext_def newMatch_def Let_def
      split: option.splits if_splits sum.splits)

lemma generateBracket_fresh:
  assumes "generateBracket gen sh teamList = Inr ms"
  shows "\<forall>m\<in>set ms. Match.status m \<noteq> Completed"
proof -
  let ?T = "log2 (length teamList)"
  let ?per = "map (\<lambda>roundNumber. 2 ^ (?T - roundNumber)) [1..<Suc ?T]"
  let ?I = "\<lambda>st :: bracket_state. \<forall>m\<in>set (fst st). Match.status m \<noteq> Completed"
  from assms obtain st where
    run: "forEachM (\<lambda>st roundNumber.
            forEachM (bracketStep gen teamList sh ?T roundNumber)
              [1..<Suc (?per ! (roundNumber - 1))] st) [1..<Suc ?T] ([], Map.empty) = Inr st"
    and ms: "ms = map (resolveLink (snd st)) (fst st)"
    unfolding generateBracket_def Let_def by (auto split: sum.splits)
  have inner: "?I s'" if "?I s" and
    "forEachM (bracketStep gen teamList sh ?T r) ps s = Inr s'" for s s' r ps
    using that(2,1)
    by (rule forEachM_invariant) (rule bracketStep_fresh)
  have "?I st"
    using run
  proof (rule forEachM_invariant)
    show "?I ([], Map.empty)" by simp
  next
    fix s x s'
    assume "?I s"
      "forEachM (bracketStep gen teamList sh ?T x) [1..<Suc (?per ! (x - 1))] s = Inr s'"
    then show "?I s'" by (rule inner)
  qed
  then show ?thesis unfolding ms by simp
qed

lemma registryOk_create:
  "registryOk reg \<Longrightarrow> create now reg opts = (reg', res) \<Longrightarrow> registryOk reg'"
  unfolding create_def Let_def
  by (auto split: option.splits intro!: registryOk_update)

lemma registryOk_startRegistration:
  "registryOk reg \<Longrightarrow> startRegistration now reg tid = (reg', res) \<Longrightarrow> registryOk reg'"
  unfolding startRegistration_def Let_def
  by (auto split: option.splits if_splits intro!: registryOk_update dest: registryOk_lookup)

lemma registryOk_registerTeam:
  "registryOk reg \<Longrightarrow> registerTeam e reg opts = (reg', res) \<Longrightarrow> registryOk reg'"
  unfolding registerTeam_def Let_def
  by (auto split: option.splits if_splits intro!: registryOk_update dest: registryOk_lookup)

lemma registryOk_startTournament:
  "registryOk reg \<Longrightarrow> startTournament now gen sh reg tid = (reg', res) \<Longrightarrow> registryOk reg'"
  unfolding startTournament_def Let_def
  by (auto split: option.splits if_splits sum.splits intro!: registryOk_update
      dest!: generateBracket_fresh simp: completedOk_def)

lemma registryOk_checkTournamentProgress:
  assumes "registryOk reg" "map_of reg tid = Some t" "checkTournamentProgress now t = Inr (t', st)"
  shows "registryOk (AList.update tid t' reg)"
proof -
  have "matches t' = matches t"
    using checkTournamentProgress_fields [OF assms(3)] by simp
  with registryOk_lookup [OF assms(1,2)] show ?thesis
    using assms(1) by (intro registryOk_update) simp_all
qed

lemma reachable_registryOk: "reachable reg \<Longrightarrow> registryOk reg"
proof (induction rule: reachable.induct)
  case initial
  show ?case by (simp add: registryOk_def)
next
  case (by_create reg options k now reg' res)
  then show ?case by (auto intro: registryOk_create)
next
  case (by_startRegistration reg now tid reg' res)
  then show ?case by (auto intro: registryOk_startRegistration)
next
  case (by_registerTeam reg e ropts reg' tres)
  then show ?case by (auto intro: registryOk_registerTeam)
next
  case (by_startTournament reg tid tournament shuffledTeams now gen reg' res)
  then show ?case by (auto intro: registryOk_startTournament)
next
  case (by_reportMatchResult reg now tid mid homeR awayR reg' mres)
  then show ?case by (auto intro: registryOk_reportMatchResult)
next
  case (by_checkTournamentProgress reg tid tournament now t' st)
  then show ?case by (auto intro: registryOk_checkTournamentProgress)
qed

text \<open>
  C8. In every registry that the operations create, startRegistration, registerTeam,
  startTournament, reportMatchResult and checkTournamentProgress can produce from the
  empty one, every completed match of every tournament has non-null homeTeamId,
  awayTeamId, homeRounds, awayRounds and winnerId, and its winnerId is its homeTeamId or
  its awayTeamId. The reachable registries are closed under the six operations, so the
  statement covers the registry after each of them.
\<close>

theorem completed_match_invariant:
  assumes "reachable reg" "map_of reg tid = Some t" "m \<in> set (matches t)"
    and "Match.status m = Completed"
  shows "homeTeamId m \<noteq> None \<and> awayTeamId m \<noteq> None
     \<and> homeRounds m \<noteq> None \<and> awayRounds m \<noteq> None \<and> winnerId m \<noteq> None
     \<and> (winnerId m = homeTeamId m \<or> winnerId m = awayTeamId m)"
proof -
  from assms(1) have "registryOk reg" by (rule reachable_registryOk)
  from registryOk_lookup [OF this assms(2)] assms(3) have "completedOk m" by simp
  with assms(4) show ?thesis
    by (auto simp: completedOk_def dest: truthyD)
qed

theorem completed_match_invariant_witness:
  "Match.status (matches (the (map_of exampleRun10 ''t_1'')) ! 2) = Completed
   \<and> homeTeamId (matches (the (map_of exampleRun10 ''t_1'')) ! 2) \<noteq> None
   \<and> awayRounds (matches (the (map_of exampleRun10 ''t_1'')) ! 2) \<noteq> None
   \<and> winnerId (matches (the (map_of exampleRun10 ''t_1'')) ! 2) \<noteq> None"
proof -
  have r: "reachable exampleRun10"
    unfolding exampleRun10_def using reachable_exampleRun9 by (rule reachable_reportMatchResult)
  have "map_of exampleRun10 ''t_1'' \<noteq> None" by code_simp
  then have t: "map_of exampleRun10 ''t_1'' = Some (the (map_of exampleRun10 ''t_1''))"
    by simp
  have "length (matches (the (map_of exampleRun10 ''t_1''))) = 3" by code_simp
  then have m: "matches (the (map_of exampleRun10 ''t_1'')) ! 2
      \<in> set (matches (the (map_of exampleRun10 ''t_1'')))"
    by simp
  have c: "Match.status (matches (the (map_of exampleRun10 ''t_1'')) ! 2) = Completed"
    by code_simp
  from completed_match_invariant [OF r t m c] c show ?thesis by simp
qed

end
